theory Spec2Isabelle
  imports Complex_Main "HOL-Library.Code_Target_Nat"
begin

section \<open>Strings and character classes\<close>

text \<open>
  The paragraph diff engine of \<^verbatim>\<open>monitor.js\<close> (and its copy in \<^verbatim>\<open>backfill.js\<close>) works on
  JavaScript strings. A string is modelled as the list of its UTF-16 code units, each a
  natural number (below 65536 in a JavaScript string; nothing below depends on that bound),
  and \<open>length\<close> is the JavaScript \<^verbatim>\<open>.length\<close>. \<open>js\<close> writes a string by its ASCII text.
  The character classes are those of the regular expressions in the source, which carry no
  \<^verbatim>\<open>i\<close> or \<^verbatim>\<open>u\<close> flag:
  \<^item> \<^verbatim>\<open>\s\<close>, the white space and line terminators of ECMAScript, which \<^verbatim>\<open>trim()\<close> removes too:
    tab, line feed, vertical tab, form feed, carriage return, space, no-break space (160),
    U+1680, U+2000 to U+200A, U+2028, U+2029, U+202F, U+205F, U+3000 and U+FEFF;
  \<^item> \<^verbatim>\<open>\w\<close>: \<^verbatim>\<open>[A-Za-z0-9_]\<close>;
  \<^item> \<^verbatim>\<open>[A-Z]\<close> (65 to 90) and \<^verbatim>\<open>[.!?]\<close> (46, 33, 63).
\<close>

type_synonym codeunit = nat

type_synonym jsstring = "codeunit list"

definition js :: "string \<Rightarrow> jsstring" where
  "js s = map of_char s"

definition isSpace :: "codeunit \<Rightarrow> bool" where
  "isSpace c =
     (c \<in> {9, 10, 11, 12, 13, 32, 160, 5760, 8232, 8233, 8239, 8287, 12288, 65279} \<or>
      (8192 \<le> c \<and> c \<le> 8202))"

definition isWordChar :: "codeunit \<Rightarrow> bool" where
  "isWordChar c =
     ((48 \<le> c \<and> c \<le> 57) \<or> (65 \<le> c \<and> c \<le> 90) \<or> c = 95 \<or> (97 \<le> c \<and> c \<le> 122))"

definition isUpper :: "codeunit \<Rightarrow> bool" where
  "isUpper c = (65 \<le> c \<and> c \<le> 90)"

definition isTerminal :: "codeunit \<Rightarrow> bool" where
  "isTerminal c = (c = 46 \<or> c = 33 \<or> c = 63)"

text \<open>
  The source calls \<^verbatim>\<open>toLowerCase()\<close> in two places, each time followed at once by the
  deletion of what is not a word character: \<^verbatim>\<open>word.toLowerCase().replace(/[^\w]/g, '')\<close> and
  \<^verbatim>\<open>p.toLowerCase().replace(/[^\w\s]/g, '')\<close>. \<open>lowerWord c\<close> is what the deletion of
  the code units outside \<^verbatim>\<open>\w\<close> leaves of the lower-case form of the code unit \<open>c\<close>. The Unicode
  lower-case mapping sends to word characters the letters \<^verbatim>\<open>A-Z\<close> (up by 32), and two code
  units that are not word characters themselves: U+0130 (304, capital I with dot above,
  which becomes \<^verbatim>\<open>i\<close> followed by the combining dot U+0307, deleted) and U+212A (8490, the
  Kelvin sign, which becomes \<^verbatim>\<open>k\<close>). The lower-case form of every
  other code unit outside \<^verbatim>\<open>\w\<close> (alone or in a surrogate pair) has no word character and
  is deleted; the mapping sends no code unit to white space and leaves white space as it
  is.
\<close>

definition lowerWord :: "codeunit \<Rightarrow> jsstring" where
  "lowerWord c =
     (if 65 \<le> c \<and> c \<le> 90 then [c + 32]
      else if isWordChar c then [c]
      else if c = 304 then [105]
      else if c = 8490 then [107]
      else [])"

text \<open>\<^verbatim>\<open>s.trim()\<close> removes the white space at both ends.\<close>

definition trim :: "jsstring \<Rightarrow> jsstring" where
  "trim s = rev (dropWhile isSpace (rev (dropWhile isSpace s)))"

text \<open>A string is blank when \<^verbatim>\<open>s.trim()\<close> is the empty string (falsy in JavaScript).\<close>

definition isBlank :: "jsstring \<Rightarrow> bool" where
  "isBlank s = list_all isSpace s"

text \<open>\<^verbatim>\<open>escapeHtml\<close>: three global replacements, in the order of the source, of \<^verbatim>\<open>&\<close> (38),
  \<^verbatim>\<open><\<close> (60) and \<^verbatim>\<open>>\<close> (62).\<close>

definition replaceChar :: "codeunit \<Rightarrow> jsstring \<Rightarrow> jsstring \<Rightarrow> jsstring" where
  "replaceChar c r s = concat (map (\<lambda>x. if x = c then r else [x]) s)"

definition escapeHtml :: "jsstring \<Rightarrow> jsstring" where
  "escapeHtml text =
     replaceChar 62 (js ''&gt;'') (replaceChar 60 (js ''&lt;'') (replaceChar 38 (js ''&amp;'') text))"

section \<open>Text normalizer: \<^verbatim>\<open>splitIntoParagraphs\<close>\<close>

text \<open>
  \<^verbatim>\<open>text.split(/(?<=[.!?])\s+(?=[A-Z])/)\<close>: the separator is a maximal run of white space
  that stands right after one of \<^verbatim>\<open>. ! ?\<close> and right before an upper-case letter. The run is
  dropped, the pieces between the separators are returned, and a text without a separator
  (the empty text too) is returned as its only piece.
\<close>

definition sentenceBreak :: "codeunit \<Rightarrow> jsstring \<Rightarrow> bool" where
  "sentenceBreak c cs =
     (isTerminal c \<and> takeWhile isSpace cs \<noteq> [] \<and>
      (case dropWhile isSpace cs of [] \<Rightarrow> False | d # _ \<Rightarrow> isUpper d))"

function splitSentences :: "jsstring \<Rightarrow> jsstring list" where
  "splitSentences [] = [[]]"
| "splitSentences (c # cs) =
     (if sentenceBreak c cs
      then [c] # splitSentences (dropWhile isSpace cs)
      else (case splitSentences cs of [] \<Rightarrow> [[c]] | p # ps \<Rightarrow> (c # p) # ps))"
  by pat_completeness auto
termination
  by (relation "measure length") (auto simp: less_Suc_eq_le length_dropWhile_le)

text \<open>
  The grouping loop of \<^verbatim>\<open>splitIntoParagraphs\<close>. Its state is the pair of the source's
  \<^verbatim>\<open>paragraphs\<close> array and \<^verbatim>\<open>current\<close> buffer:
  \<^verbatim>\<open>
  if (current.length + sentence.length > 500 && current.length > 0) {
    paragraphs.push(current.trim()); current = sentence;
  } else { current += (current ? ' ' : '') + sentence; }
  \<close>
\<close>

fun groupStep :: "jsstring list \<times> jsstring \<Rightarrow> jsstring \<Rightarrow> jsstring list \<times> jsstring" where
  "groupStep (paragraphs, current) sentence =
     (if length current + length sentence > 500 \<and> length current > 0
      then (paragraphs @ [trim current], sentence)
      else (paragraphs, current @ (if current \<noteq> [] then [32] else []) @ sentence))"

text \<open>
  After the loop: \<^verbatim>\<open>if (current.trim()) paragraphs.push(current.trim())\<close>, and
  \<^verbatim>\<open>return paragraphs.length > 0 ? paragraphs : [text]\<close>.
\<close>

definition flushCurrent :: "jsstring list \<times> jsstring \<Rightarrow> jsstring list" where
  "flushCurrent st =
     (case st of (paragraphs, current) \<Rightarrow>
        if trim current \<noteq> [] then paragraphs @ [trim current] else paragraphs)"

definition splitIntoParagraphs :: "jsstring \<Rightarrow> jsstring list" where
  "splitIntoParagraphs text =
     (let paragraphs = flushCurrent (foldl groupStep ([], []) (splitSentences text))
      in if length paragraphs > 0 then paragraphs else [text])"

text \<open>
  Paragraphs seen as groups of whole sentences. \<open>joinSentences\<close> puts one space between the
  sentences of a group. \<open>capGroups\<close> is the grouping rule on sentence lists with the test of
  the source: a group is closed before a sentence when the length of the joined group plus
  the length of the sentence exceeds 500 and the joined group is not empty.
  \<open>capGroupsAppended\<close> is the rule read literally from the specification: a group is closed
  when the buffer with the sentence appended (the joining space included) would be longer
  than 500.
\<close>

fun joinSentences :: "jsstring list \<Rightarrow> jsstring" where
  "joinSentences [] = []"
| "joinSentences [s] = s"
| "joinSentences (s # t # ss) = s @ [32] @ joinSentences (t # ss)"

fun capStep :: "jsstring list list \<times> jsstring list \<Rightarrow> jsstring \<Rightarrow> jsstring list list \<times> jsstring list" where
  "capStep (groups, g) sentence =
     (if length (joinSentences g) + length sentence > 500 \<and> joinSentences g \<noteq> []
      then (groups @ [g], [sentence])
      else (groups, g @ [sentence]))"

definition capGroups :: "jsstring list \<Rightarrow> jsstring list list" where
  "capGroups sentences =
     (case foldl capStep ([], []) sentences of (groups, g) \<Rightarrow> groups @ [g])"

fun capStepAppended :: "jsstring list list \<times> jsstring list \<Rightarrow> jsstring \<Rightarrow> jsstring list list \<times> jsstring list" where
  "capStepAppended (groups, g) sentence =
     (if length (joinSentences (g @ [sentence])) > 500 \<and> joinSentences g \<noteq> []
      then (groups @ [g], [sentence])
      else (groups, g @ [sentence]))"

definition capGroupsAppended :: "jsstring list \<Rightarrow> jsstring list list" where
  "capGroupsAppended sentences =
     (case foldl capStepAppended ([], []) sentences of (groups, g) \<Rightarrow> groups @ [g])"

text \<open>
  The grouping rule seen on a list of groups: at every boundary between two groups the
  test of the source held (the joined group and the first sentence of the next exceed 500
  together), and inside a group it failed before every sentence but the first.
\<close>

definition capInv :: "jsstring list list \<Rightarrow> bool" where
  "capInv G =
     ((\<forall>i. Suc i < length G \<longrightarrow> 500 < length (joinSentences (G ! i)) + length (hd (G ! Suc i))) \<and>
      (\<forall>g\<in>set G. \<forall>k. 0 < k \<and> k < length g \<longrightarrow>
           length (joinSentences (take k g)) + length (g ! k) \<le> 500))"

text \<open>
  Two notions used to state what the sentence splitter returns. A \<open>sentenceChain\<close> is a
  list of pieces as the splitter produces them: no piece holds a separator of its own, every
  piece but the last ends in \<^verbatim>\<open>. ! ?\<close> and every piece but the first starts with an
  upper-case letter. A string is \<open>tight\<close> when it is not empty and has no white space at
  either end.
\<close>

fun sentenceChain :: "jsstring list \<Rightarrow> bool" where
  "sentenceChain [] = True"
| "sentenceChain [s] = (splitSentences s = [s])"
| "sentenceChain (s # t # ss) =
     (splitSentences s = [s] \<and> s \<noteq> [] \<and> isTerminal (last s) \<and> t \<noteq> [] \<and> isUpper (hd t) \<and>
      sentenceChain (t # ss))"

definition tight :: "jsstring \<Rightarrow> bool" where
  "tight s = (s \<noteq> [] \<and> \<not> isSpace (hd s) \<and> \<not> isSpace (last s))"

section \<open>Paragraph aligner: \<^verbatim>\<open>findBestMatch\<close>\<close>

text \<open>
  \<^verbatim>\<open>normalizeForMatching\<close>: lower case and delete what is neither a word character nor white
  space (white space is kept, any other code unit leaves its \<open>lowerWord\<close>), replace every run
  of white space by one space (32), trim.
\<close>

function collapseSpaces :: "jsstring \<Rightarrow> jsstring" where
  "collapseSpaces [] = []"
| "collapseSpaces (c # cs) =
     (if isSpace c then 32 # collapseSpaces (dropWhile isSpace cs)
      else c # collapseSpaces cs)"
  by pat_completeness auto
termination
  by (relation "measure length") (auto simp: less_Suc_eq_le length_dropWhile_le)

definition normalizeForMatching :: "jsstring \<Rightarrow> jsstring" where
  "normalizeForMatching text =
     trim (collapseSpaces (concat (map (\<lambda>c. if isSpace c then [c] else lowerWord c) text)))"

text \<open>\<^verbatim>\<open>s.split(' ')\<close>: the pieces between single spaces; the empty string gives one empty piece.\<close>

fun splitOnSpace :: "jsstring \<Rightarrow> jsstring list" where
  "splitOnSpace [] = [[]]"
| "splitOnSpace (c # cs) =
     (if c = 32 then [] # splitOnSpace cs
      else (case splitOnSpace cs of [] \<Rightarrow> [[c]] | w # ws \<Rightarrow> (c # w) # ws))"

text \<open>\<^verbatim>\<open>new Set(normalizeForMatching(p).split(' '))\<close>: only membership and size are read.\<close>

definition wordSet :: "jsstring \<Rightarrow> jsstring set" where
  "wordSet text = set (splitOnSpace (normalizeForMatching text))"

text \<open>
  The score is the JavaScript quotient \<^verbatim>\<open>intersection / union\<close> of two counts. A quotient with
  divisor zero is \<open>NaN\<close> (0/0) or \<open>PosInfinity\<close>; otherwise it is modelled by the exact
  rational, and \<^verbatim>\<open>>\<close> by the order of the rationals (every comparison with \<open>NaN\<close> is
  false). The source compares the doubles nearest to the quotients; for word sets of fewer
  than \<open>2^26\<close> words the two orders agree, also against the literal \<^verbatim>\<open>0.3\<close>, the double
  nearest to 3/10.
\<close>

datatype jsnum = Finite rat | PosInfinity | NaN

definition jsDivide :: "nat \<Rightarrow> nat \<Rightarrow> jsnum" where
  "jsDivide a b =
     (if b \<noteq> 0 then Finite (of_nat a / of_nat b) else if a = 0 then NaN else PosInfinity)"

fun jsGreater :: "jsnum \<Rightarrow> jsnum \<Rightarrow> bool" where
  "jsGreater (Finite a) (Finite b) = (a > b)"
| "jsGreater PosInfinity (Finite b) = True"
| "jsGreater _ _ = False"

definition jaccard :: "jsstring set \<Rightarrow> jsstring set \<Rightarrow> jsnum" where
  "jaccard paraWords otherWords =
     jsDivide (card (paraWords \<inter> otherWords)) (card (paraWords \<union> otherWords))"

text \<open>
  The search loop of \<^verbatim>\<open>findBestMatch\<close>; its state is the pair \<^verbatim>\<open>bestIndex\<close>,
  \<^verbatim>\<open>bestScore\<close>, returned as \<^verbatim>\<open>{ index, score }\<close>.
\<close>

record match =
  index :: int
  score :: jsnum

definition matchStep :: "jsstring set \<Rightarrow> jsstring list \<Rightarrow> nat set \<Rightarrow> match \<Rightarrow> nat \<Rightarrow> match" where
  "matchStep paraWords paragraphs usedIndices best i =
     (if i \<in> usedIndices then best
      else if jsGreater (jaccard paraWords (wordSet (paragraphs ! i))) (score best) \<and>
              jsGreater (jaccard paraWords (wordSet (paragraphs ! i))) (Finite (3 / 10))
           then \<lparr>index = int i, score = jaccard paraWords (wordSet (paragraphs ! i))\<rparr>
           else best)"

definition findBestMatch :: "jsstring \<Rightarrow> jsstring list \<Rightarrow> nat set \<Rightarrow> match" where
  "findBestMatch para paragraphs usedIndices =
     foldl (matchStep (wordSet para) paragraphs usedIndices)
       \<lparr>index = - 1, score = Finite 0\<rparr> [0..<length paragraphs]"

text \<open>
  The score the loop computes for candidate \<open>i\<close>, and the exact value of a Jaccard
  quotient.
\<close>

definition candidateScore :: "jsstring \<Rightarrow> jsstring list \<Rightarrow> nat \<Rightarrow> jsnum" where
  "candidateScore para paragraphs i = jaccard (wordSet para) (wordSet (paragraphs ! i))"

definition overlap :: "jsstring set \<Rightarrow> jsstring set \<Rightarrow> rat" where
  "overlap A B = of_nat (card (A \<inter> B)) / of_nat (card (A \<union> B))"

section \<open>Paragraph differ: \<^verbatim>\<open>diffParagraphs\<close>\<close>

text \<open>
  \<^verbatim>\<open>s.split(/(\s+)/)\<close>: the string is cut at every maximal run of white space and the runs
  are kept as tokens of their own (the capture group), so the tokens concatenate to the
  string. A string that starts or ends with white space gets an empty first or last token.
\<close>

function splitWhitespace :: "jsstring \<Rightarrow> jsstring list" where
  "splitWhitespace [] = [[]]"
| "splitWhitespace (c # cs) =
     (if isSpace c
      then [] # (c # takeWhile isSpace cs) # splitWhitespace (dropWhile isSpace cs)
      else (case splitWhitespace cs of [] \<Rightarrow> [[c]] | w # ws \<Rightarrow> (c # w) # ws))"
  by pat_completeness auto
termination
  by (relation "measure length") (auto simp: less_Suc_eq_le length_dropWhile_le)

text \<open>\<^verbatim>\<open>normalizeWord\<close>, \<^verbatim>\<open>word.toLowerCase().replace(/[^\w]/g, '')\<close>, and the comparator handed to
  the array diff.\<close>

definition normalizeWord :: "jsstring \<Rightarrow> jsstring" where
  "normalizeWord word = concat (map lowerWord word)"

definition comparator :: "jsstring \<Rightarrow> jsstring \<Rightarrow> bool" where
  "comparator a b = (normalizeWord a = normalizeWord b)"

text \<open>
  \<^verbatim>\<open>Diff.diffArrays\<close> comes from the npm package \<^verbatim>\<open>diff\<close>, which is not part of the repository;
  the model takes it as a parameter of type \<open>array_diff\<close>. It returns a list of parts, each
  with the flags \<^verbatim>\<open>added\<close> and \<^verbatim>\<open>removed\<close> and its tokens (\<^verbatim>\<open>part.value\<close>). Two properties
  of the package are named, and a theorem that needs one says so:
  \<^item> \<open>equalityPass\<close>: the diff starts by walking both arrays while the comparator holds; when
    this walk reaches the end of both (same length, comparator true at every position) the
    result is one part, neither added nor removed, that holds the new array;
  \<^item> \<open>partsFromInputs\<close>: an added part holds tokens of the new array and a removed part
    tokens of the old array.
\<close>

record change =
  added :: bool
  removed :: bool
  partValue :: "jsstring list"

type_synonym array_diff = "jsstring list \<Rightarrow> jsstring list \<Rightarrow> (jsstring \<Rightarrow> jsstring \<Rightarrow> bool) \<Rightarrow> change list"

definition equalityPass :: "array_diff \<Rightarrow> bool" where
  "equalityPass diffArrays =
     (\<forall>oldWords newWords eq.
        oldWords \<noteq> [] \<and> list_all2 (\<lambda>a b. eq a b \<and> eq b a) oldWords newWords \<longrightarrow>
        diffArrays oldWords newWords eq = [\<lparr>added = False, removed = False, partValue = newWords\<rparr>])"

definition partsFromInputs :: "array_diff \<Rightarrow> bool" where
  "partsFromInputs diffArrays =
     (\<forall>oldWords newWords eq. \<forall>part \<in> set (diffArrays oldWords newWords eq).
        (added part \<longrightarrow> set (partValue part) \<subseteq> set newWords) \<and>
        (\<not> added part \<and> removed part \<longrightarrow> set (partValue part) \<subseteq> set oldWords))"

text \<open>
  The rendering loop of \<^verbatim>\<open>diffParagraphs\<close>; its state holds the four locals of the source.
  \<^verbatim>\<open>text.trim()\<close> is truthy when the trimmed text is not empty, and
  \<^verbatim>\<open>text.replace(/\s+/g, '').length\<close> counts the characters that are not white space.
\<close>

record rendering =
  html :: jsstring
  hasRealChanges :: bool
  unchangedChars :: nat
  totalChars :: nat

definition renderPart :: "rendering \<Rightarrow> change \<Rightarrow> rendering" where
  "renderPart st part =
     (let text = concat (partValue part);
          trimmedLen = length (filter (\<lambda>c. \<not> isSpace c) text)
      in if added part then
           (if trim text \<noteq> []
            then st\<lparr>html := html st @ js ''<add>'' @ escapeHtml text @ js ''</add>'',
                    hasRealChanges := True,
                    totalChars := totalChars st + trimmedLen\<rparr>
            else st\<lparr>html := html st @ text\<rparr>)
         else if removed part then
           (if trim text \<noteq> []
            then st\<lparr>html := html st @ js ''<del>'' @ escapeHtml text @ js ''</del>'',
                    hasRealChanges := True,
                    totalChars := totalChars st + trimmedLen\<rparr>
            else st)
         else st\<lparr>html := html st @ escapeHtml text,
                 unchangedChars := unchangedChars st + trimmedLen,
                 totalChars := totalChars st + trimmedLen\<rparr>)"

definition renderParts :: "change list \<Rightarrow> rendering" where
  "renderParts changes =
     foldl renderPart \<lparr>html = [], hasRealChanges = False, unchangedChars = 0, totalChars = 0\<rparr> changes"

text \<open>
  \<^verbatim>\<open>totalChars > 0 ? unchangedChars / totalChars : 1\<close>, as an exact rational. The source
  compares the double nearest to the quotient with 0.5; for counts below \<open>2^53\<close> the
  comparison agrees with the exact one.
\<close>

definition unchangedRatio :: "rendering \<Rightarrow> rat" where
  "unchangedRatio st =
     (if totalChars st > 0 then of_nat (unchangedChars st) / of_nat (totalChars st) else 1)"

text \<open>
  The object \<^verbatim>\<open>diffParagraphs\<close> returns; \<open>pairType\<close> and \<open>pairHtml\<close> are its fields
  \<^verbatim>\<open>type\<close> and \<^verbatim>\<open>html\<close>.
\<close>

datatype pair_type = TypeReplaced | TypeChanged

record diff_result =
  pairType :: pair_type
  pairHtml :: jsstring
  hasChanges :: bool
  oldContent :: jsstring
  newContent :: jsstring

definition diffParagraphs :: "array_diff \<Rightarrow> jsstring \<Rightarrow> jsstring \<Rightarrow> diff_result" where
  "diffParagraphs diffArrays oldPara newPara =
     (let oldWords = splitWhitespace oldPara;
          newWords = splitWhitespace newPara;
          st = renderParts (diffArrays oldWords newWords comparator);
          isReplacement = (hasRealChanges st \<and> unchangedRatio st < 1 / 2)
      in \<lparr>pairType = (if isReplacement then TypeReplaced else TypeChanged),
          pairHtml = html st,
          hasChanges = hasRealChanges st,
          oldContent = escapeHtml oldPara,
          newContent = escapeHtml newPara\<rparr>)"

text \<open>The parts of a diff by role: marked as insertion or deletion, or unchanged.\<close>

definition markedPart :: "change \<Rightarrow> bool" where
  "markedPart part = ((added part \<or> removed part) \<and> \<not> isBlank (concat (partValue part)))"

definition unchangedPart :: "change \<Rightarrow> bool" where
  "unchangedPart part = (\<not> added part \<and> \<not> removed part)"

definition nonSpaceLength :: "change \<Rightarrow> nat" where
  "nonSpaceLength part = length (filter (\<lambda>c. \<not> isSpace c) (concat (partValue part)))"

text \<open>
  A small array diff with the two properties above: among the edit scripts that keep a
  pair of tokens whenever the comparator holds at the front, it takes one of least cost,
  and groups the edits into parts. It instantiates the parameter at concrete inputs.
\<close>

datatype edit = Keep jsstring | Ins jsstring | Del jsstring

fun editCost :: "edit list \<Rightarrow> nat" where
  "editCost [] = 0"
| "editCost (Keep w # es) = editCost es"
| "editCost (e # es) = Suc (editCost es)"

fun edits :: "(jsstring \<Rightarrow> jsstring \<Rightarrow> bool) \<Rightarrow> jsstring list \<Rightarrow> jsstring list \<Rightarrow> edit list" where
  "edits eq [] ys = map Ins ys"
| "edits eq (x # xs) [] = map Del (x # xs)"
| "edits eq (x # xs) (y # ys) =
     (if eq x y then Keep y # edits eq xs ys
      else (case (Del x # edits eq xs (y # ys), Ins y # edits eq (x # xs) ys) of
              (d, i) \<Rightarrow> if editCost d \<le> editCost i then d else i))"

fun pushEdit :: "edit \<Rightarrow> change list \<Rightarrow> change list" where
  "pushEdit (Keep w) (p # ps) =
     (if \<not> added p \<and> \<not> removed p then p\<lparr>partValue := w # partValue p\<rparr> # ps
      else \<lparr>added = False, removed = False, partValue = [w]\<rparr> # p # ps)"
| "pushEdit (Ins w) (p # ps) =
     (if added p \<and> \<not> removed p then p\<lparr>partValue := w # partValue p\<rparr> # ps
      else \<lparr>added = True, removed = False, partValue = [w]\<rparr> # p # ps)"
| "pushEdit (Del w) (p # ps) =
     (if removed p \<and> \<not> added p then p\<lparr>partValue := w # partValue p\<rparr> # ps
      else \<lparr>added = False, removed = True, partValue = [w]\<rparr> # p # ps)"
| "pushEdit (Keep w) [] = [\<lparr>added = False, removed = False, partValue = [w]\<rparr>]"
| "pushEdit (Ins w) [] = [\<lparr>added = True, removed = False, partValue = [w]\<rparr>]"
| "pushEdit (Del w) [] = [\<lparr>added = False, removed = True, partValue = [w]\<rparr>]"

definition simpleDiffArrays :: array_diff where
  "simpleDiffArrays oldWords newWords eq = foldr pushEdit (edits eq oldWords newWords) []"

text \<open>An edit, or a part, that holds only tokens of the array it belongs to.\<close>

fun editFrom :: "jsstring list \<Rightarrow> jsstring list \<Rightarrow> edit \<Rightarrow> bool" where
  "editFrom xs ys (Keep w) = True"
| "editFrom xs ys (Ins w) = (w \<in> set ys)"
| "editFrom xs ys (Del w) = (w \<in> set xs)"

definition partFrom :: "jsstring list \<Rightarrow> jsstring list \<Rightarrow> change \<Rightarrow> bool" where
  "partFrom xs ys p = ((added p \<longrightarrow> set (partValue p) \<subseteq> set ys) \<and>
                       (\<not> added p \<and> removed p \<longrightarrow> set (partValue p) \<subseteq> set xs))"

text \<open>
  The shape of a token array: a word token is a non-empty token without white space, a gap
  token a non-empty run of white space. \<open>wordsAndGaps\<close> holds of an array that alternates
  word, gap, word, ... and starts and ends with a word.
\<close>

definition isWordToken :: "jsstring \<Rightarrow> bool" where
  "isWordToken w = (w \<noteq> [] \<and> (\<forall>c\<in>set w. \<not> isSpace c))"

definition isGapToken :: "jsstring \<Rightarrow> bool" where
  "isGapToken g = (g \<noteq> [] \<and> isBlank g)"

fun gapsAndWords :: "jsstring list \<Rightarrow> bool" where
  "gapsAndWords [] = True"
| "gapsAndWords [g] = False"
| "gapsAndWords (g # w # rest) = (isGapToken g \<and> isWordToken w \<and> gapsAndWords rest)"

fun wordsAndGaps :: "jsstring list \<Rightarrow> bool" where
  "wordsAndGaps [] = False"
| "wordsAndGaps (w # rest) = (isWordToken w \<and> gapsAndWords rest)"

section \<open>Orchestration: \<^verbatim>\<open>generateDiff\<close>\<close>

text \<open>
  The entries of the \<^verbatim>\<open>paragraphs\<close> array that \<^verbatim>\<open>generateDiff\<close> builds: \<^verbatim>\<open>{ type, content }\<close>
  for added, removed and changed, \<^verbatim>\<open>{ type, oldContent, newContent }\<close> for replaced.
\<close>

datatype entry =
    Added jsstring
  | Removed jsstring
  | Changed jsstring
  | Replaced jsstring jsstring

text \<open>
  The first loop of \<^verbatim>\<open>generateDiff\<close>: for every new paragraph, in order, find the best unused
  old paragraph; a match marks the old index as used and pushes a replaced or changed entry
  when the pair has changes; no match pushes an added entry. The state holds the source's
  \<^verbatim>\<open>paragraphs\<close> array (\<open>entries\<close>) and the set \<^verbatim>\<open>usedOld\<close>. \<^verbatim>\<open>findBestMatch\<close> returns
  \<open>-1\<close> or an index of \<open>oldParas\<close> (lemma \<open>findBestMatch_index\<close>), so
  \<^verbatim>\<open>oldParas[match.index]\<close> is always defined.
\<close>

record diff_state =
  entries :: "entry list"
  usedOld :: "nat set"

definition diffStep :: "array_diff \<Rightarrow> jsstring list \<Rightarrow> diff_state \<Rightarrow> jsstring \<Rightarrow> diff_state" where
  "diffStep diffArrays oldParas st newPara =
     (let m = findBestMatch newPara oldParas (usedOld st)
      in if index m \<ge> 0 then
           (let used = insert (nat (index m)) (usedOld st);
                oldPara = oldParas ! nat (index m);
                diffResult = diffParagraphs diffArrays oldPara newPara
            in if hasChanges diffResult then
                 (if pairType diffResult = TypeReplaced
                  then \<lparr>entries = entries st @ [Replaced (oldContent diffResult) (newContent diffResult)],
                        usedOld = used\<rparr>
                  else \<lparr>entries = entries st @ [Changed (pairHtml diffResult)], usedOld = used\<rparr>)
               else \<lparr>entries = entries st, usedOld = used\<rparr>)
         else \<lparr>entries = entries st @ [Added (escapeHtml newPara)], usedOld = usedOld st\<rparr>)"

definition alignLoop :: "array_diff \<Rightarrow> jsstring list \<Rightarrow> jsstring list \<Rightarrow> diff_state" where
  "alignLoop diffArrays oldParas newParas =
     foldl (diffStep diffArrays oldParas) \<lparr>entries = [], usedOld = {}\<rparr> newParas"

text \<open>The second loop: a removed entry for every old index that was never used.\<close>

definition removedEntries :: "jsstring list \<Rightarrow> nat set \<Rightarrow> entry list" where
  "removedEntries oldParas used =
     map (\<lambda>i. Removed (escapeHtml (oldParas ! i))) (filter (\<lambda>i. i \<notin> used) [0..<length oldParas])"

text \<open>
  \<^verbatim>\<open>generateDiff\<close> splits both texts and runs the two loops. The model returns the
  \<^verbatim>\<open>paragraphs\<close> array; the summary requested from a remote service and the JSON
  serialization of the pair are left out.
\<close>

definition diffParagraphLists :: "array_diff \<Rightarrow> jsstring list \<Rightarrow> jsstring list \<Rightarrow> entry list" where
  "diffParagraphLists diffArrays oldParas newParas =
     (let st = alignLoop diffArrays oldParas newParas
      in entries st @ removedEntries oldParas (usedOld st))"

definition generateDiff :: "array_diff \<Rightarrow> jsstring \<Rightarrow> jsstring \<Rightarrow> entry list" where
  "generateDiff diffArrays oldText newText =
     diffParagraphLists diffArrays (splitIntoParagraphs oldText) (splitIntoParagraphs newText)"

text \<open>
  The pairs (new index, old index) that the first loop matches, in the order of the loop,
  starting at new index \<open>i\<close> with the set \<open>used\<close>. The source keeps only the set of the
  old indices; the list is defined here to state what the loop does.
\<close>

fun matchedPairs :: "jsstring list \<Rightarrow> nat set \<Rightarrow> nat \<Rightarrow> jsstring list \<Rightarrow> (nat \<times> nat) list" where
  "matchedPairs oldParas used i [] = []"
| "matchedPairs oldParas used i (newPara # rest) =
     (let m = findBestMatch newPara oldParas used
      in if index m \<ge> 0
         then (i, nat (index m)) # matchedPairs oldParas (insert (nat (index m)) used) (Suc i) rest
         else matchedPairs oldParas used (Suc i) rest)"

text \<open>
  What the first loop pushes for a new paragraph. \<open>pairEntries\<close> is the body of the branch
  \<^verbatim>\<open>match.index >= 0\<close> after the old paragraph is read: nothing when the pair has no
  changes, else one replaced or one changed entry. \<open>newParaEntries\<close> is the whole iteration
  for the new paragraph at index \<open>i\<close>, given the matched pairs: the added entry when \<open>i\<close> is
  in no pair, else the entries of the pair with its old paragraph.
\<close>

definition pairEntries :: "array_diff \<Rightarrow> jsstring \<Rightarrow> jsstring \<Rightarrow> entry list" where
  "pairEntries diffArrays oldPara newPara =
     (let diffResult = diffParagraphs diffArrays oldPara newPara
      in if hasChanges diffResult then
           (if pairType diffResult = TypeReplaced
            then [Replaced (oldContent diffResult) (newContent diffResult)]
            else [Changed (pairHtml diffResult)])
         else [])"

definition newParaEntries ::
    "array_diff \<Rightarrow> jsstring list \<Rightarrow> jsstring list \<Rightarrow> (nat \<times> nat) list \<Rightarrow> nat \<Rightarrow> entry list" where
  "newParaEntries diffArrays oldParas newParas pairs i =
     (case map_of pairs i of
        None \<Rightarrow> [Added (escapeHtml (newParas ! i))]
      | Some j \<Rightarrow> pairEntries diffArrays (oldParas ! j) (newParas ! i))"

text \<open>
  \<open>entryOf\<close>: the entry \<open>e\<close> is one that the loop can push for the new paragraph: its added
  entry, or its changed or replaced entry against some old paragraph.
\<close>

definition entryOf :: "array_diff \<Rightarrow> jsstring list \<Rightarrow> jsstring \<Rightarrow> entry \<Rightarrow> bool" where
  "entryOf diffArrays oldParas newPara e =
     (e = Added (escapeHtml newPara) \<or>
      (\<exists>oldPara\<in>set oldParas.
         e = Changed (pairHtml (diffParagraphs diffArrays oldPara newPara)) \<or>
         e = Replaced (escapeHtml oldPara) (escapeHtml newPara)))"

section \<open>Facts about the string functions\<close>

lemma splitSentences_nonempty: "splitSentences t \<noteq> []"
  by (induction t rule: splitSentences.induct) (auto split: list.splits)

lemma isUpper_not_space: "isUpper c \<Longrightarrow> \<not> isSpace c"
  by (auto simp: isUpper_def isSpace_def)

lemma isTerminal_not_space: "isTerminal c \<Longrightarrow> \<not> isSpace c"
  by (auto simp: isTerminal_def isSpace_def)

lemma sentenceBreak_drop:
  "sentenceBreak c cs \<Longrightarrow> dropWhile isSpace cs \<noteq> [] \<and> isUpper (hd (dropWhile isSpace cs))"
  by (cases "dropWhile isSpace cs") (simp_all add: sentenceBreak_def)

lemma splitSentences_no_empty: "[] \<in> set (splitSentences t) \<Longrightarrow> t = []"
proof (induction t rule: splitSentences.induct)
  case 1
  then show ?case by simp
next
  case (2 c cs)
  show ?case
  proof (cases "sentenceBreak c cs")
    case True
    with 2 sentenceBreak_drop[OF True] show ?thesis by auto
  next
    case False
    with 2 show ?thesis
      by (cases "splitSentences cs") (auto simp: splitSentences_nonempty)
  qed
qed

lemma splitSentences_tl_upper:
  "s \<in> set (tl (splitSentences t)) \<Longrightarrow> s \<noteq> [] \<and> isUpper (hd s)"
proof (induction t arbitrary: s rule: splitSentences.induct)
  case 1
  then show ?case by simp
next
  case (2 c cs)
  show ?case
  proof (cases "sentenceBreak c cs")
    case True
    let ?r = "dropWhile isSpace cs"
    from sentenceBreak_drop[OF True] have r: "?r \<noteq> []" "isUpper (hd ?r)" by auto
    from 2(3) True have "s \<in> set (splitSentences ?r)" by simp
    then consider "s = hd (splitSentences ?r)" | "s \<in> set (tl (splitSentences ?r))"
      by (cases "splitSentences ?r") auto
    then show ?thesis
    proof cases
      case 1
      obtain d ds where d: "?r = d # ds" using r by (cases ?r) auto
      with 1 r show ?thesis
        by (cases "sentenceBreak d ds"; cases "splitSentences ds") auto
    next
      case 2
      with "2.IH"(1)[OF True] show ?thesis by simp
    qed
  next
    case False
    with 2(3) have "s \<in> set (tl (splitSentences cs))"
      by (cases "splitSentences cs") auto
    with "2.IH"(2)[OF False] show ?thesis by simp
  qed
qed

lemma splitSentences_blank: "isBlank t \<Longrightarrow> splitSentences t = [t]"
proof (induction t)
  case Nil
  then show ?case by simp
next
  case (Cons c cs)
  then have "\<not> isTerminal c" using isTerminal_not_space by (auto simp: isBlank_def)
  with Cons show ?case by (simp add: sentenceBreak_def isBlank_def)
qed

lemma dropWhile_all: "(\<forall>x\<in>set (dropWhile P s). P x) = (\<forall>x\<in>set s. P x)"
proof
  assume a: "\<forall>x\<in>set (dropWhile P s). P x"
  have "dropWhile P s = []"
  proof (rule ccontr)
    assume n: "dropWhile P s \<noteq> []"
    then have "\<not> P (hd (dropWhile P s))" by (rule hd_dropWhile)
    moreover have "hd (dropWhile P s) \<in> set (dropWhile P s)" using n by simp
    ultimately show False using a by blast
  qed
  then show "\<forall>x\<in>set s. P x" by (simp add: dropWhile_eq_Nil_conv)
next
  assume "\<forall>x\<in>set s. P x"
  then show "\<forall>x\<in>set (dropWhile P s). P x" by (meson set_dropWhileD)
qed

lemma trim_blank: "(trim s = []) = isBlank s"
  by (simp add: trim_def isBlank_def list_all_iff dropWhile_eq_Nil_conv dropWhile_all)

lemma joinSentences_snoc:
  "joinSentences (g @ [s]) = (if g = [] then s else joinSentences g @ [32] @ s)"
  by (induction g rule: joinSentences.induct) auto

lemma joinSentences_nonempty: "g \<noteq> [] \<Longrightarrow> [] \<notin> set g \<Longrightarrow> joinSentences g \<noteq> []"
  by (induction g rule: joinSentences.induct) auto

lemma isBlank_append: "isBlank (a @ b) = (isBlank a \<and> isBlank b)"
  by (simp add: isBlank_def)

lemma joinSentences_not_blank:
  "g \<noteq> [] \<Longrightarrow> \<not> isBlank (last g) \<Longrightarrow> \<not> isBlank (joinSentences g)"
  by (induction g rule: joinSentences.induct) (auto simp: isBlank_def)

text \<open>The string loop and the loop on groups run in step.\<close>

lemma group_loop_refines:
  assumes "[] \<notin> set ss" and "[] \<notin> set g"
  shows "foldl groupStep (map (\<lambda>g. trim (joinSentences g)) groups, joinSentences g) ss =
         (case foldl capStep (groups, g) ss of
            (cl, g') \<Rightarrow> (map (\<lambda>g. trim (joinSentences g)) cl, joinSentences g'))"
  using assms
proof (induction ss arbitrary: groups g)
  case Nil
  then show ?case by simp
next
  case (Cons s ss)
  from Cons.prems have s: "s \<noteq> []" and ss: "[] \<notin> set ss" by auto
  have je: "(joinSentences g = []) = (g = [])"
    using joinSentences_nonempty[of g] Cons.prems(2) by auto
  show ?case
  proof (cases "length (joinSentences g) + length s > 500 \<and> joinSentences g \<noteq> []")
    case True
    then have "foldl groupStep (map (\<lambda>g. trim (joinSentences g)) groups, joinSentences g) (s # ss)
        = foldl groupStep (map (\<lambda>g. trim (joinSentences g)) (groups @ [g]), joinSentences [s]) ss"
      by simp
    also have "\<dots> = (case foldl capStep (groups @ [g], [s]) ss of
            (cl, g') \<Rightarrow> (map (\<lambda>g. trim (joinSentences g)) cl, joinSentences g'))"
      using Cons.IH[of "[s]" "groups @ [g]"] ss s by simp
    finally show ?thesis using True by (simp del: groupStep.simps)
  next
    case False
    then have "foldl groupStep (map (\<lambda>g. trim (joinSentences g)) groups, joinSentences g) (s # ss)
        = foldl groupStep (map (\<lambda>g. trim (joinSentences g)) groups, joinSentences (g @ [s])) ss"
      using je by (auto simp: joinSentences_snoc)
    also have "\<dots> = (case foldl capStep (groups, g @ [s]) ss of
            (cl, g') \<Rightarrow> (map (\<lambda>g. trim (joinSentences g)) cl, joinSentences g'))"
      using Cons.IH[of "g @ [s]" groups] ss s Cons.prems(2) by simp
    finally show ?thesis using False by (auto simp del: groupStep.simps)
  qed
qed

text \<open>The groups partition the sentences, and only the open group can be empty.\<close>

lemma capStep_loop_inv:
  "foldl capStep (groups, g) ss = (cl, g') \<Longrightarrow>
     concat cl @ g' = concat groups @ g @ ss \<and>
     ([] \<notin> set groups \<longrightarrow> [] \<notin> set g \<longrightarrow> [] \<notin> set ss \<longrightarrow> [] \<notin> set cl) \<and>
     (g' = [] \<longrightarrow> g = [] \<and> ss = [])"
proof (induction ss arbitrary: groups g)
  case Nil
  then show ?case by auto
next
  case (Cons s ss)
  show ?case
  proof (cases "length (joinSentences g) + length s > 500 \<and> joinSentences g \<noteq> []")
    case True
    then have gne: "g \<noteq> []" by auto
    from Cons.prems True have "foldl capStep (groups @ [g], [s]) ss = (cl, g')" by simp
    from Cons.IH[OF this] gne show ?thesis by auto
  next
    case False
    with Cons.prems have "foldl capStep (groups, g @ [s]) ss = (cl, g')" by auto
    from Cons.IH[OF this] show ?thesis by auto
  qed
qed

lemma concat_capGroups: "concat (capGroups ss) = ss"
proof -
  obtain cl g' where f: "foldl capStep ([], []) ss = (cl, g')" by (cases "foldl capStep ([], []) ss")
  from capStep_loop_inv[OF f] show ?thesis by (simp add: capGroups_def f)
qed

lemma capGroups_no_empty: "ss \<noteq> [] \<Longrightarrow> [] \<notin> set ss \<Longrightarrow> [] \<notin> set (capGroups ss)"
proof -
  assume a: "ss \<noteq> []" "[] \<notin> set ss"
  obtain cl g' where f: "foldl capStep ([], []) ss = (cl, g')" by (cases "foldl capStep ([], []) ss")
  from capStep_loop_inv[OF f] a show ?thesis by (auto simp add: capGroups_def f)
qed

lemma splitSentences_single: "length (splitSentences t) = 1 \<Longrightarrow> splitSentences t = [t]"
proof (induction t rule: splitSentences.induct)
  case 1
  then show ?case by simp
next
  case (2 c cs)
  show ?case
  proof (cases "sentenceBreak c cs")
    case True
    with 2(3) show ?thesis by (simp add: splitSentences_nonempty)
  next
    case False
    with 2 show ?thesis by (cases "splitSentences cs") (auto simp: splitSentences_nonempty)
  qed
qed

lemma last_sentence_not_blank:
  assumes "\<not> isBlank t"
  shows "\<not> isBlank (last (splitSentences t))"
proof (cases "length (splitSentences t) = 1")
  case True
  from splitSentences_single[OF True] assms show ?thesis by simp
next
  case False
  then have "tl (splitSentences t) \<noteq> []"
    using splitSentences_nonempty[of t] by (cases "splitSentences t") auto
  then have "last (splitSentences t) \<in> set (tl (splitSentences t))"
    by (metis last_in_set last_tl)
  from splitSentences_tl_upper[OF this] show ?thesis
    using isUpper_not_space by (cases "last (splitSentences t)") (auto simp: isBlank_def)
qed

lemma splitIntoParagraphs_groups:
  assumes nb: "\<not> isBlank text"
  shows "splitIntoParagraphs text =
           map (\<lambda>g. trim (joinSentences g)) (capGroups (splitSentences text))"
proof -
  let ?ss = "splitSentences text"
  have tne: "text \<noteq> []" using nb by (auto simp: isBlank_def)
  have ne: "[] \<notin> set ?ss" using splitSentences_no_empty tne by blast
  obtain cl g' where f: "foldl capStep ([], []) ?ss = (cl, g')" by (cases "foldl capStep ([], []) ?ss")
  from capStep_loop_inv[OF f] splitSentences_nonempty[of "text"]
  have g': "g' \<noteq> []" and cat: "concat cl @ g' = ?ss" by auto
  from cat g' have "last g' = last ?ss" by (metis last_appendR)
  with last_sentence_not_blank[OF nb] have "\<not> isBlank (last g')" by simp
  from joinSentences_not_blank[OF g' this] have t: "trim (joinSentences g') \<noteq> []"
    by (simp add: trim_blank)
  have "foldl groupStep ([], []) ?ss = (map (\<lambda>g. trim (joinSentences g)) cl, joinSentences g')"
    using group_loop_refines[of ?ss "[]" "[]"] ne f by simp
  then show ?thesis using t by (simp add: splitIntoParagraphs_def flushCurrent_def capGroups_def f)
qed

lemma splitIntoParagraphs_blank:
  assumes "isBlank text"
  shows "splitIntoParagraphs text = [text]"
  using assms splitSentences_blank[OF assms] trim_blank[of "text"]
  by (simp add: splitIntoParagraphs_def flushCurrent_def)

lemma splitSentences_prefix: "splitSentences cs = p # ps \<Longrightarrow> \<exists>r. cs = p @ r"
proof (induction cs arbitrary: p ps rule: splitSentences.induct)
  case 1
  then show ?case by simp
next
  case (2 c cs)
  show ?case
  proof (cases "sentenceBreak c cs")
    case True
    with 2(3) show ?thesis by auto
  next
    case False
    obtain q qs where q: "splitSentences cs = q # qs"
      using splitSentences_nonempty[of cs] by (cases "splitSentences cs") auto
    from "2.IH"(2)[OF False q] obtain r where "cs = q @ r" by blast
    with 2(3) False q show ?thesis by auto
  qed
qed

lemma sentenceBreak_append:
  assumes "sentenceBreak c p"
  shows "sentenceBreak c (p @ r)"
proof -
  from assms obtain d ds where d: "dropWhile isSpace p = d # ds" "isUpper d"
    by (cases "dropWhile isSpace p") (auto simp: sentenceBreak_def)
  have dn: "\<not> isSpace d" using d(2) by (rule isUpper_not_space)
  have "d \<in> set p" using d(1) by (metis list.set_intros(1) set_dropWhileD)
  then have "takeWhile isSpace (p @ r) = takeWhile isSpace p"
    and "dropWhile isSpace (p @ r) = dropWhile isSpace p @ r"
    using dn by (auto simp: takeWhile_append1 dropWhile_append1)
  with assms d show ?thesis by (simp add: sentenceBreak_def)
qed

lemma sentenceBreak_append_iff:
  assumes "x \<in> set p" "\<not> isSpace x"
  shows "sentenceBreak c (p @ r) = sentenceBreak c p"
proof -
  have "takeWhile isSpace (p @ r) = takeWhile isSpace p"
    and "dropWhile isSpace (p @ r) = dropWhile isSpace p @ r"
    using assms by (auto simp: takeWhile_append1 dropWhile_append1)
  moreover have "dropWhile isSpace p \<noteq> []"
    using assms by (auto simp: dropWhile_eq_Nil_conv)
  ultimately show ?thesis
    by (cases "dropWhile isSpace p") (auto simp: sentenceBreak_def)
qed

lemma sentenceChain_hd: "sentenceChain (p # ps) \<Longrightarrow> splitSentences p = [p]"
  by (cases ps) auto

lemma splitSentences_hd:
  "t \<noteq> [] \<Longrightarrow> hd (splitSentences t) \<noteq> [] \<and> hd (hd (splitSentences t)) = hd t"
  by (cases t) (auto split: list.splits)

lemma splitSentences_chain: "sentenceChain (splitSentences t)"
proof (induction t rule: splitSentences.induct)
  case 1
  then show ?case by simp
next
  case (2 c cs)
  show ?case
  proof (cases "sentenceBreak c cs")
    case True
    let ?r = "dropWhile isSpace cs"
    from sentenceBreak_drop[OF True] have r: "?r \<noteq> []" "isUpper (hd ?r)" by auto
    obtain p ps where p: "splitSentences ?r = p # ps"
      using splitSentences_nonempty[of ?r] by (cases "splitSentences ?r") auto
    from splitSentences_hd[OF r(1)] p r have "p \<noteq> []" "isUpper (hd p)" by auto
    moreover have "isTerminal c" using True by (simp add: sentenceBreak_def)
    moreover have "splitSentences [c] = [[c]]" by (simp add: sentenceBreak_def)
    moreover have "sentenceChain (p # ps)" using "2.IH"(1)[OF True] p by simp
    ultimately show ?thesis using True p by simp
  next
    case False
    obtain p ps where p: "splitSentences cs = p # ps"
      using splitSentences_nonempty[of cs] by (cases "splitSentences cs") auto
    have ch: "sentenceChain (p # ps)" using "2.IH"(2)[OF False] p by simp
    from splitSentences_prefix[OF p] obtain r where r: "cs = p @ r" by blast
    have "\<not> sentenceBreak c p" using False sentenceBreak_append[of c p r] r by auto
    with sentenceChain_hd[OF ch] have at: "splitSentences (c # p) = [c # p]" by simp
    show ?thesis
    proof (cases ps)
      case Nil
      with at p False show ?thesis by simp
    next
      case (Cons q qs)
      with ch have "p \<noteq> []" "isTerminal (last p)" "q \<noteq> []" "isUpper (hd q)" "sentenceChain (q # qs)"
        by auto
      with at p False Cons show ?thesis by simp
    qed
  qed
qed

lemma sentenceChain_append: "sentenceChain (xs @ ys) \<Longrightarrow> sentenceChain xs \<and> sentenceChain ys"
proof (induction xs rule: sentenceChain.induct)
  case 1
  then show ?case by simp
next
  case (2 s)
  then show ?case by (cases ys) auto
next
  case (3 s t ss)
  then show ?case by auto
qed

lemma sentenceChain_groups: "sentenceChain (concat G) \<Longrightarrow> g \<in> set G \<Longrightarrow> sentenceChain g"
  by (induction G) (auto dest: sentenceChain_append)

lemma split_joined_pair:
  assumes "splitSentences s = [s]" "s \<noteq> []" "isTerminal (last s)" "r \<noteq> []" "isUpper (hd r)"
  shows "splitSentences (s @ [32] @ r) = s # splitSentences r"
  using assms(1-3)
proof (induction s)
  case Nil
  then show ?case by simp
next
  case (Cons c s')
  have rn: "\<not> isSpace (hd r)" using assms(5) by (rule isUpper_not_space)
  have dr: "dropWhile isSpace r = r" using rn assms(4) by (cases r) auto
  show ?case
  proof (cases "s' = []")
    case True
    with Cons.prems have "isTerminal c" by simp
    then have "sentenceBreak c ([32] @ r)"
      using dr assms(4,5) by (cases r) (auto simp: sentenceBreak_def isSpace_def)
    then show ?thesis using True dr by (simp add: isSpace_def)
  next
    case False
    have nb: "\<not> sentenceBreak c s'"
    proof
      assume "sentenceBreak c s'"
      then have "length (splitSentences (c # s')) \<ge> 2"
        using splitSentences_nonempty[of "dropWhile isSpace s'"]
        by (cases "splitSentences (dropWhile isSpace s')") auto
      with Cons.prems(1) show False by simp
    qed
    with Cons.prems(1) have at: "splitSentences s' = [s']"
      by (cases "splitSentences s'") (auto simp: splitSentences_nonempty)
    from Cons.prems False have tl: "isTerminal (last s')" by simp
    have "last s' \<in> set s'" using False by simp
    moreover have "\<not> isSpace (last s')" using tl by (rule isTerminal_not_space)
    ultimately have "sentenceBreak c (s' @ [32] @ r) = sentenceBreak c s'"
      by (rule sentenceBreak_append_iff)
    with nb have "\<not> sentenceBreak c (s' @ [32] @ r)" by simp
    moreover have "splitSentences (s' @ [32] @ r) = s' # splitSentences r"
      using Cons.IH[OF at False tl] .
    ultimately show ?thesis by simp
  qed
qed

lemma joinSentences_hd: "g \<noteq> [] \<Longrightarrow> hd g \<noteq> [] \<Longrightarrow> joinSentences g \<noteq> [] \<and> hd (joinSentences g) = hd (hd g)"
  by (induction g rule: joinSentences.induct) auto

lemma split_joined_chain:
  "sentenceChain g \<Longrightarrow> g \<noteq> [] \<Longrightarrow> splitSentences (joinSentences g) = g"
proof (induction g rule: joinSentences.induct)
  case 1
  then show ?case by simp
next
  case (2 s)
  then show ?case by simp
next
  case (3 s t ss)
  from 3(2) have c: "splitSentences s = [s]" "s \<noteq> []" "isTerminal (last s)" "t \<noteq> []" "isUpper (hd t)"
     "sentenceChain (t # ss)" by auto
  from joinSentences_hd[of "t # ss"] c have "joinSentences (t # ss) \<noteq> []" "isUpper (hd (joinSentences (t # ss)))"
    by auto
  from split_joined_pair[OF c(1-3) this] 3(1)[OF c(6)] show ?case by simp
qed

lemma trim_tight: "tight s \<Longrightarrow> trim s = s"
proof -
  assume t: "tight s"
  then have "dropWhile isSpace s = s" by (cases s) (auto simp: tight_def)
  moreover have "dropWhile isSpace (rev s) = rev s"
    using t by (cases "rev s") (auto simp: tight_def last_rev hd_rev)
  ultimately show ?thesis by (simp add: trim_def)
qed

lemma trimmed_tight:
  assumes "trim s = s" "s \<noteq> []"
  shows "tight s"
proof -
  let ?d = "dropWhile isSpace s"
  let ?e = "dropWhile isSpace (rev ?d)"
  from assms have e: "rev ?e = s" by (simp add: trim_def)
  have ene: "?e \<noteq> []"
  proof
    assume "?e = []"
    then have "rev ?e = []" by simp
    with e assms(2) show False by simp
  qed
  then have l: "\<not> isSpace (hd ?e)" by (rule hd_dropWhile)
  have "last (rev ?e) = hd ?e" using ene by (simp add: last_rev)
  with l e have 1: "\<not> isSpace (last s)" by simp
  have "length s = length (rev ?e)" using e by simp
  also have "\<dots> \<le> length ?d" using length_dropWhile_le[of isSpace "rev ?d"] by simp
  finally have le: "length s \<le> length ?d" .
  have "length (takeWhile isSpace s) + length ?d = length s"
    by (metis length_append takeWhile_dropWhile_id)
  with le have "length (takeWhile isSpace s) = 0" by linarith
  then have "takeWhile isSpace s = []" by (simp only: length_0_conv)
  then have "?d = s" using takeWhile_dropWhile_id[of isSpace s] by simp
  then have "\<not> isSpace (hd s)" using assms(2) hd_dropWhile[of isSpace s] by simp
  with 1 assms(2) show ?thesis by (simp add: tight_def)
qed

lemma in_butlast_or_last: "x \<in> set xs \<Longrightarrow> x \<noteq> last xs \<Longrightarrow> x \<in> set (butlast xs)"
  by (induction xs) (auto split: if_splits)

lemma splitSentences_last:
  "t \<noteq> [] \<Longrightarrow> last (splitSentences t) \<noteq> [] \<and> last (last (splitSentences t)) = last t"
proof (induction t rule: splitSentences.induct)
  case 1
  then show ?case by simp
next
  case (2 c cs)
  show ?case
  proof (cases "sentenceBreak c cs")
    case True
    let ?r = "dropWhile isSpace cs"
    from sentenceBreak_drop[OF True] have r: "?r \<noteq> []" by auto
    then have cs: "cs \<noteq> []" by auto
    have "last (takeWhile isSpace cs @ ?r) = last ?r" using r by (rule last_appendR)
    then have "last ?r = last cs" by simp
    with "2.IH"(1)[OF True r] True cs show ?thesis
      by (simp add: splitSentences_nonempty)
  next
    case False
    obtain p ps where p: "splitSentences cs = p # ps"
      using splitSentences_nonempty[of cs] by (cases "splitSentences cs") auto
    show ?thesis
    proof (cases "cs = []")
      case True
      with False show ?thesis by simp
    next
      case cne: False
      from "2.IH"(2)[OF False cne] p have "last (p # ps) \<noteq> []" "last (last (p # ps)) = last cs" by auto
      with False p cne show ?thesis by (cases ps) auto
    qed
  qed
qed

lemma splitSentences_butlast_terminal:
  "s \<in> set (butlast (splitSentences t)) \<Longrightarrow> s \<noteq> [] \<and> isTerminal (last s)"
proof -
  have "sentenceChain ss \<Longrightarrow> s \<in> set (butlast ss) \<Longrightarrow> s \<noteq> [] \<and> isTerminal (last s)" for ss
    by (induction ss rule: sentenceChain.induct) auto
  then show "s \<in> set (butlast (splitSentences t)) \<Longrightarrow> s \<noteq> [] \<and> isTerminal (last s)"
    using splitSentences_chain by blast
qed

lemma splitSentences_tight:
  assumes "tight t" "s \<in> set (splitSentences t)"
  shows "tight s"
proof -
  let ?S = "splitSentences t"
  have tne: "t \<noteq> []" using assms(1) by (simp add: tight_def)
  have Sne: "?S \<noteq> []" by (rule splitSentences_nonempty)
  have sne: "s \<noteq> []" using splitSentences_no_empty tne assms(2) by blast
  have h: "\<not> isSpace (hd s)"
  proof (cases "s = hd ?S")
    case True
    with splitSentences_hd[OF tne] assms(1) show ?thesis by (simp add: tight_def)
  next
    case False
    with assms(2) Sne have "s \<in> set (tl ?S)" by (cases ?S) auto
    from splitSentences_tl_upper[OF this] show ?thesis using isUpper_not_space by blast
  qed
  have l: "\<not> isSpace (last s)"
  proof (cases "s = last ?S")
    case True
    with splitSentences_last[OF tne] assms(1) show ?thesis by (simp add: tight_def)
  next
    case False
    with assms(2) have "s \<in> set (butlast ?S)" by (simp add: in_butlast_or_last)
    from splitSentences_butlast_terminal[OF this] show ?thesis using isTerminal_not_space by blast
  qed
  from sne h l show ?thesis by (simp add: tight_def)
qed

lemma joinSentences_last: "g \<noteq> [] \<Longrightarrow> last g \<noteq> [] \<Longrightarrow> joinSentences g \<noteq> [] \<and> last (joinSentences g) = last (last g)"
  by (induction g rule: joinSentences.induct) auto

lemma joinSentences_tight:
  assumes "g \<noteq> []" "\<forall>s\<in>set g. tight s"
  shows "tight (joinSentences g)"
proof -
  have "tight (hd g)" "tight (last g)" using assms by auto
  with joinSentences_hd[OF assms(1)] joinSentences_last[OF assms(1)] show ?thesis
    by (auto simp: tight_def)
qed

text \<open>The groups of \<open>capGroups\<close> obey the rule at every boundary and inside every group.\<close>

lemma capInv_close:
  assumes "capInv (groups @ [g])" "500 < length (joinSentences g) + length s"
  shows "capInv ((groups @ [g]) @ [[s]])"
proof -
  let ?G = "groups @ [g]"
  have a: "500 < length (joinSentences ((?G @ [[s]]) ! i)) + length (hd ((?G @ [[s]]) ! Suc i))"
    if "Suc i < length (?G @ [[s]])" for i
  proof (cases "Suc i < length ?G")
    case True
    then have "(?G @ [[s]]) ! i = ?G ! i" "(?G @ [[s]]) ! Suc i = ?G ! Suc i"
      by (simp_all add: nth_append)
    with assms(1) True show ?thesis unfolding capInv_def by metis
  next
    case False
    with that have i: "i = length groups" by simp
    then have "(?G @ [[s]]) ! i = g" "(?G @ [[s]]) ! Suc i = [s]" by (simp_all add: nth_append)
    with assms(2) show ?thesis by simp
  qed
  have b: "\<forall>h\<in>set (?G @ [[s]]). \<forall>k. 0 < k \<and> k < length h \<longrightarrow>
             length (joinSentences (take k h)) + length (h ! k) \<le> 500"
    using assms(1) unfolding capInv_def by auto
  from a b show ?thesis unfolding capInv_def by blast
qed

lemma capInv_append:
  assumes "capInv (groups @ [g])" "g = [] \<longrightarrow> groups = []"
    and "g \<noteq> [] \<longrightarrow> length (joinSentences g) + length s \<le> 500"
  shows "capInv (groups @ [g @ [s]])"
proof -
  let ?G = "groups @ [g]" and ?H = "groups @ [g @ [s]]"
  have a: "500 < length (joinSentences (?H ! i)) + length (hd (?H ! Suc i))"
    if si: "Suc i < length ?H" for i
  proof -
    from si have gne: "groups \<noteq> []" by auto
    with assms(2) have g: "g \<noteq> []" by auto
    have Hi: "?H ! i = ?G ! i" using si by (simp add: nth_append)
    have "hd (?H ! Suc i) = hd (?G ! Suc i)"
      using si g by (cases "Suc i < length groups") (simp_all add: nth_append)
    with assms(1) si Hi show ?thesis unfolding capInv_def by simp
  qed
  have b: "length (joinSentences (take k h)) + length (h ! k) \<le> 500"
    if h: "h \<in> set ?H" and k: "0 < k \<and> k < length h" for h k
  proof (cases "h \<in> set groups")
    case True
    with assms(1) k show ?thesis unfolding capInv_def by auto
  next
    case False
    with h have hh: "h = g @ [s]" by auto
    show ?thesis
    proof (cases "k < length g")
      case True
      then have "take k h = take k g" "h ! k = g ! k" by (simp_all add: hh nth_append)
      moreover have "g \<in> set ?G" by simp
      ultimately show ?thesis using assms(1) k True unfolding capInv_def by metis
    next
      case False
      with k hh have kk: "k = length g" by simp
      with k have "g \<noteq> []" by auto
      with assms(3) kk hh show ?thesis by simp
    qed
  qed
  from a b show ?thesis unfolding capInv_def by blast
qed

lemma capStep_loop_capInv:
  assumes "[] \<notin> set ss" "[] \<notin> set g" "g = [] \<longrightarrow> groups = []" "capInv (groups @ [g])"
    and "foldl capStep (groups, g) ss = (groups', g')"
  shows "capInv (groups' @ [g'])"
  using assms
proof (induction ss arbitrary: groups g)
  case Nil
  then show ?case by simp
next
  case (Cons s ss)
  from Cons.prems(1) have s: "s \<noteq> []" and ss: "[] \<notin> set ss" by auto
  have je: "(joinSentences g = []) = (g = [])"
    using joinSentences_nonempty[of g] Cons.prems(2) by auto
  show ?case
  proof (cases "length (joinSentences g) + length s > 500 \<and> joinSentences g \<noteq> []")
    case True
    then have f: "foldl capStep (groups @ [g], [s]) ss = (groups', g')" using Cons.prems(5) by simp
    have "capInv ((groups @ [g]) @ [[s]])" using Cons.prems(4) True by (intro capInv_close) simp_all
    from Cons.IH[OF ss _ _ this f] s show ?thesis by simp
  next
    case False
    then have f: "foldl capStep (groups, g @ [s]) ss = (groups', g')" using Cons.prems(5) by auto
    have "capInv (groups @ [g @ [s]])"
      using Cons.prems(3,4) False je by (intro capInv_append) auto
    from Cons.IH[OF ss _ _ this f] s Cons.prems(2) show ?thesis by simp
  qed
qed

lemma capGroups_capInv:
  assumes "[] \<notin> set ss"
  shows "capInv (capGroups ss)"
proof -
  obtain cl g' where f: "foldl capStep ([], []) ss = (cl, g')" by (cases "foldl capStep ([], []) ss")
  have "capInv ([] @ [[]])" by (simp add: capInv_def)
  from capStep_loop_capInv[OF assms _ _ this f] show ?thesis by (simp add: capGroups_def f)
qed

lemma capGroups_sentences_capInv: "capInv (capGroups (splitSentences t))"
proof (cases "t = []")
  case True
  then show ?thesis by (simp add: capGroups_def capInv_def)
next
  case False
  then have "[] \<notin> set (splitSentences t)" using splitSentences_no_empty by blast
  then show ?thesis by (rule capGroups_capInv)
qed

section \<open>Claims about the text normalizer\<close>

text \<open>
  Claim C4 (paragraph cap rule), as amended. The paragraphs are the trimmed joins of groups
  of whole sentences; the groups are those of \<open>capGroups\<close>, which closes a group before a
  sentence exactly when the length of the joined group plus the length of the sentence is
  more than 500 (the joining space is not counted) and the joined group is not empty. The
  groups partition the sentence sequence in order and none is empty, so no sentence is
  split over two paragraphs. Where a paragraph was closed, the closed buffer and the next
  sentence are longer than 500 together; where a sentence was appended to a non-empty
  buffer, they are not. A blank text is returned whole as its only paragraph.
\<close>

theorem paragraph_cap_rule:
  "splitIntoParagraphs text =
     (if isBlank text then [text]
      else map (\<lambda>g. trim (joinSentences g)) (capGroups (splitSentences text))) \<and>
   concat (capGroups (splitSentences text)) = splitSentences text \<and>
   [] \<notin> set (capGroups (splitSentences text)) \<and>
   (\<forall>i. Suc i < length (capGroups (splitSentences text)) \<longrightarrow>
        500 < length (joinSentences (capGroups (splitSentences text) ! i)) +
              length (hd (capGroups (splitSentences text) ! Suc i))) \<and>
   (\<forall>g\<in>set (capGroups (splitSentences text)). \<forall>k. 0 < k \<and> k < length g \<longrightarrow>
        length (joinSentences (take k g)) + length (g ! k) \<le> 500)"
proof -
  have 1: "splitIntoParagraphs text =
     (if isBlank text then [text]
      else map (\<lambda>g. trim (joinSentences g)) (capGroups (splitSentences text)))"
    by (simp add: splitIntoParagraphs_groups splitIntoParagraphs_blank)
  have 2: "concat (capGroups (splitSentences text)) = splitSentences text"
    by (rule concat_capGroups)
  have 3: "[] \<notin> set (capGroups (splitSentences text))"
  proof (cases "text = []")
    case True
    then show ?thesis by (simp add: capGroups_def)
  next
    case False
    then show ?thesis
      using capGroups_no_empty[OF splitSentences_nonempty] splitSentences_no_empty by blast
  qed
  from capGroups_sentences_capInv[of "text"]
  have 4: "(\<forall>i. Suc i < length (capGroups (splitSentences text)) \<longrightarrow>
        500 < length (joinSentences (capGroups (splitSentences text) ! i)) +
              length (hd (capGroups (splitSentences text) ! Suc i))) \<and>
   (\<forall>g\<in>set (capGroups (splitSentences text)). \<forall>k. 0 < k \<and> k < length g \<longrightarrow>
        length (joinSentences (take k g)) + length (g ! k) \<le> 500)"
    unfolding capInv_def .
  from 1 2 3 4 show ?thesis by blast
qed

text \<open>
  The cap rule at a text of three sentences of 302, 302 and 3 characters: the paragraph is
  closed before the second sentence (302 + 302 > 500) and the third is appended to the
  second (302 + 3 is at most 500).
\<close>

theorem paragraph_cap_rule_witness:
  "splitIntoParagraphs (js (CHR ''A'' # replicate 300 CHR ''a'' @ ''. B'' @ replicate 300 CHR ''b'' @ ''. Cc.'')) =
     [js (CHR ''A'' # replicate 300 CHR ''a'' @ ''.''), js (CHR ''B'' # replicate 300 CHR ''b'' @ ''. Cc.'')] \<and>
   capGroups (splitSentences
     (js (CHR ''A'' # replicate 300 CHR ''a'' @ ''. B'' @ replicate 300 CHR ''b'' @ ''. Cc.''))) =
     [[js (CHR ''A'' # replicate 300 CHR ''a'' @ ''.'')], [js (CHR ''B'' # replicate 300 CHR ''b'' @ ''.''), js ''Cc.'']] \<and>
   500 < length (joinSentences [js (CHR ''A'' # replicate 300 CHR ''a'' @ ''.'')]) +
         length (js (CHR ''B'' # replicate 300 CHR ''b'' @ ''.'')) \<and>
   length (joinSentences [js (CHR ''B'' # replicate 300 CHR ''b'' @ ''.'')]) + length (js ''Cc.'') \<le> 500"
proof -
  let ?t = "js (CHR ''A'' # replicate 300 CHR ''a'' @ ''. B'' @ replicate 300 CHR ''b'' @ ''. Cc.'')"
  let ?s1 = "js (CHR ''A'' # replicate 300 CHR ''a'' @ ''.'')"
  let ?s2 = "js (CHR ''B'' # replicate 300 CHR ''b'' @ ''.'')"
  have g: "capGroups (splitSentences ?t) = [[?s1], [?s2, js ''Cc.'']]" by code_simp
  have b: "\<not> isBlank ?t" by code_simp
  have t: "map (\<lambda>g. trim (joinSentences g)) [[?s1], [?s2, js ''Cc.'']] =
             [?s1, js (CHR ''B'' # replicate 300 CHR ''b'' @ ''. Cc.'')]" by code_simp
  note inst = paragraph_cap_rule[of ?t, unfolded g]
  from inst b t have 1: "splitIntoParagraphs ?t = [?s1, js (CHR ''B'' # replicate 300 CHR ''b'' @ ''. Cc.'')]"
    by simp
  from inst have "\<forall>i. Suc i < length [[?s1], [?s2, js ''Cc.'']] \<longrightarrow>
        500 < length (joinSentences ([[?s1], [?s2, js ''Cc.'']] ! i)) +
              length (hd ([[?s1], [?s2, js ''Cc.'']] ! Suc i))" by blast
  from this[rule_format, of 0] have 2: "500 < length (joinSentences [?s1]) + length ?s2" by simp
  from inst have "\<forall>g\<in>set [[?s1], [?s2, js ''Cc.'']]. \<forall>k. 0 < k \<and> k < length g \<longrightarrow>
        length (joinSentences (take k g)) + length (g ! k) \<le> 500" by blast
  then have "\<forall>k. 0 < k \<and> k < length [?s2, js ''Cc.''] \<longrightarrow>
        length (joinSentences (take k [?s2, js ''Cc.''])) + length ([?s2, js ''Cc.''] ! k) \<le> 500" by simp
  from this[rule_format, of 1] have 3: "length (joinSentences [?s2]) + length (js ''Cc.'') \<le> 500" by simp
  from 1 g 2 3 show ?thesis by blast
qed

text \<open>
  Claim C4 as stated fails for a sentence of 250 characters followed by one of 250
  characters: appending the second sentence makes a buffer of 501 characters, so the rule
  read with the appended length (\<open>capGroupsAppended\<close>) closes the paragraph and yields two
  paragraphs, while \<^verbatim>\<open>splitIntoParagraphs\<close> tests 250 + 250 > 500, does not close, and
  returns one paragraph of 501 characters.
\<close>

theorem paragraph_cap_rule_counterexample:
  "splitIntoParagraphs (js (CHR ''A'' # replicate 248 CHR ''a'' @ ''. B'' @ replicate 248 CHR ''b'' @ ''.''))
     = [js (CHR ''A'' # replicate 248 CHR ''a'' @ ''. B'' @ replicate 248 CHR ''b'' @ ''.'')] \<and>
   map (\<lambda>g. trim (joinSentences g))
     (capGroupsAppended (splitSentences
        (js (CHR ''A'' # replicate 248 CHR ''a'' @ ''. B'' @ replicate 248 CHR ''b'' @ ''.''))))
     = [js (CHR ''A'' # replicate 248 CHR ''a'' @ ''.''), js (CHR ''B'' # replicate 248 CHR ''b'' @ ''.'')] \<and>
   length (js (CHR ''A'' # replicate 248 CHR ''a'' @ ''. B'' @ replicate 248 CHR ''b'' @ ''.'')) = 501"
  by code_simp

text \<open>
  Claim C5 (segmentation is a lossless partition), as amended: for every text without white
  space at its ends, splitting each paragraph of \<^verbatim>\<open>splitIntoParagraphs\<close> into sentences and
  concatenating the results in order gives exactly the sentences of the text.
\<close>

theorem segmentation_lossless:
  assumes "trim text = text"
  shows "concat (map splitSentences (splitIntoParagraphs text)) = splitSentences text"
proof (cases "text = []")
  case True
  then show ?thesis by (simp add: splitIntoParagraphs_def flushCurrent_def trim_def)
next
  case False
  with assms have tt: "tight text" by (rule trimmed_tight)
  then have nb: "\<not> isBlank text" by (cases "text") (auto simp: tight_def isBlank_def)
  let ?S = "splitSentences text"
  let ?G = "capGroups ?S"
  have cat: "concat ?G = ?S" by (rule concat_capGroups)
  have ne: "[] \<notin> set ?G"
    using capGroups_no_empty[OF splitSentences_nonempty] splitSentences_no_empty False by blast
  have each: "splitSentences (trim (joinSentences g)) = g" if g: "g \<in> set ?G" for g
  proof -
    have gne: "g \<noteq> []" using g ne by auto
    have "set g \<subseteq> set (concat ?G)" using g by auto
    then have "set g \<subseteq> set ?S" using cat by simp
    then have "\<forall>s\<in>set g. tight s" using splitSentences_tight[OF tt] by blast
    from joinSentences_tight[OF gne this] have "trim (joinSentences g) = joinSentences g"
      by (rule trim_tight)
    moreover have "sentenceChain g"
      using sentenceChain_groups[OF _ g] splitSentences_chain[of "text"] cat by simp
    ultimately show ?thesis using split_joined_chain[OF _ gne] by simp
  qed
  have "concat (map splitSentences (splitIntoParagraphs text))
          = concat (map (\<lambda>g. splitSentences (trim (joinSentences g))) ?G)"
    by (simp add: splitIntoParagraphs_groups[OF nb] comp_def)
  also have "\<dots> = concat (map (\<lambda>g. g) ?G)"
    using each by (simp cong: map_cong)
  finally show ?thesis using cat by simp
qed

text \<open>The lossless partition at a trimmed text of two sentences.\<close>

theorem segmentation_lossless_witness:
  "concat (map splitSentences (splitIntoParagraphs (js ''Hi. Bye.''))) = [js ''Hi.'', js ''Bye.'']"
proof -
  have t: "trim (js ''Hi. Bye.'') = (js ''Hi. Bye.'')" by code_simp
  have s: "splitSentences (js ''Hi. Bye.'') = [js ''Hi.'', js ''Bye.'']" by code_simp
  from segmentation_lossless[OF t] s show ?thesis by simp
qed

text \<open>
  Claim C5 as stated fails for a text that starts with white space: the paragraph is
  trimmed, so its first sentence has lost the leading space that the first sentence of the
  text keeps.
\<close>

theorem segmentation_lossless_counterexample:
  "concat (map splitSentences (splitIntoParagraphs (js '' Hi. Bye.''))) = [js ''Hi.'', js ''Bye.''] \<and>
   splitSentences (js '' Hi. Bye.'') = [js '' Hi.'', js ''Bye.''] \<and>
   concat (map splitSentences (splitIntoParagraphs (js '' Hi. Bye.''))) \<noteq> splitSentences (js '' Hi. Bye.'')"
  by code_simp

section \<open>Facts about the aligner\<close>

lemma splitOnSpace_nonempty: "splitOnSpace s \<noteq> []"
  by (induction s) (auto split: list.splits)

lemma wordSet_finite: "finite (wordSet t)"
  by (simp add: wordSet_def)

lemma wordSet_nonempty: "wordSet t \<noteq> {}"
  by (simp add: wordSet_def splitOnSpace_nonempty)

lemma union_card_pos: "0 < card (wordSet a \<union> wordSet b)"
  using wordSet_finite wordSet_nonempty by (simp add: card_gt_0_iff)

lemma jaccard_finite: "jaccard (wordSet a) (wordSet b) = Finite (overlap (wordSet a) (wordSet b))"
  using union_card_pos[of a b] by (simp add: jaccard_def jsDivide_def overlap_def)

lemma overlap_le_1: "finite A \<Longrightarrow> finite B \<Longrightarrow> overlap A B \<le> 1"
proof -
  assume f: "finite A" "finite B"
  then have "card (A \<inter> B) \<le> card (A \<union> B)" by (simp add: card_mono le_infI1)
  then show ?thesis
    by (cases "card (A \<union> B) = 0") (simp_all add: overlap_def divide_le_eq_1)
qed

lemma overlap_self: "finite A \<Longrightarrow> A \<noteq> {} \<Longrightarrow> overlap A A = 1"
  by (simp add: overlap_def)

text \<open>The state of the search loop after the candidates below \<open>k\<close>.\<close>

lemma findBestMatch_loop:
  fixes r :: "nat \<Rightarrow> rat" and used :: "nat set" and W ps k
  assumes sc: "\<And>i. i < length ps \<Longrightarrow> jaccard W (wordSet (ps ! i)) = Finite (r i)"
    and k: "k \<le> length ps"
  defines "st \<equiv> foldl (matchStep W ps used) \<lparr>index = - 1, score = Finite 0\<rparr> [0..<k]"
  shows "(index st = - 1 \<and> score st = Finite 0 \<and> (\<forall>j<k. j \<notin> used \<longrightarrow> r j \<le> 3 / 10)) \<or>
         (\<exists>m<k. m \<notin> used \<and> index st = int m \<and> score st = Finite (r m) \<and> 3 / 10 < r m \<and>
                (\<forall>j<k. j \<notin> used \<longrightarrow> r j \<le> r m) \<and> (\<forall>j<m. j \<notin> used \<longrightarrow> r j < r m))"
  using k unfolding st_def
proof (induction k)
  case 0
  then show ?case by simp
next
  case (Suc k)
  let ?st = "foldl (matchStep W ps used) \<lparr>index = - 1, score = Finite 0\<rparr> [0..<k]"
  from Suc.prems have kl: "k < length ps" by simp
  have step: "foldl (matchStep W ps used) \<lparr>index = - 1, score = Finite 0\<rparr> [0..<Suc k]
                = matchStep W ps used ?st k" by simp
  from Suc.IH kl consider
      (none) "index ?st = - 1" "score ?st = Finite 0" "\<forall>j<k. j \<notin> used \<longrightarrow> r j \<le> 3 / 10"
    | (some) m where "m < k" "m \<notin> used" "index ?st = int m" "score ?st = Finite (r m)" "3 / 10 < r m"
        "\<forall>j<k. j \<notin> used \<longrightarrow> r j \<le> r m" "\<forall>j<m. j \<notin> used \<longrightarrow> r j < r m"
    by auto
  then show ?case
  proof cases
    case none
    show ?thesis
    proof (cases "k \<notin> used \<and> 3 / 10 < r k")
      case True
      then have "matchStep W ps used ?st k = \<lparr>index = int k, score = Finite (r k)\<rparr>"
        using none sc[OF kl] by (simp add: matchStep_def)
      moreover have "\<forall>j<Suc k. j \<notin> used \<longrightarrow> r j \<le> r k"
        using none(3) True by (auto simp: less_Suc_eq)
      moreover have "\<forall>j<k. j \<notin> used \<longrightarrow> r j < r k"
        using none(3) True by fastforce
      ultimately show ?thesis unfolding step using True by auto
    next
      case False
      then have "matchStep W ps used ?st k = ?st"
        using none sc[OF kl] by (auto simp: matchStep_def)
      moreover have "\<forall>j<Suc k. j \<notin> used \<longrightarrow> r j \<le> 3 / 10"
        using none(3) False by (auto simp: less_Suc_eq)
      ultimately show ?thesis unfolding step using none by auto
    qed
  next
    case some
    show ?thesis
    proof (cases "k \<notin> used \<and> r m < r k")
      case True
      then have "matchStep W ps used ?st k = \<lparr>index = int k, score = Finite (r k)\<rparr>"
        using some sc[OF kl] by (simp add: matchStep_def)
      moreover have "\<forall>j<Suc k. j \<notin> used \<longrightarrow> r j \<le> r k"
        using some(6) True by (auto simp: less_Suc_eq)
      moreover have "\<forall>j<k. j \<notin> used \<longrightarrow> r j < r k"
        using some(6) True by fastforce
      moreover have "3 / 10 < r k" using some(5) True by simp
      ultimately show ?thesis unfolding step using True by auto
    next
      case False
      then have "matchStep W ps used ?st k = ?st"
        using some sc[OF kl] by (auto simp: matchStep_def)
      moreover have "\<forall>j<Suc k. j \<notin> used \<longrightarrow> r j \<le> r m"
        using some(6) False by (auto simp: less_Suc_eq)
      ultimately show ?thesis unfolding step using some by (auto simp: less_Suc_eq)
    qed
  qed
qed

lemma findBestMatch_cases:
  fixes para ps used
  defines "r \<equiv> \<lambda>i. overlap (wordSet para) (wordSet (ps ! i))"
  defines "res \<equiv> findBestMatch para ps used"
  shows "(index res = - 1 \<and> score res = Finite 0 \<and> (\<forall>j<length ps. j \<notin> used \<longrightarrow> r j \<le> 3 / 10)) \<or>
         (\<exists>m<length ps. m \<notin> used \<and> index res = int m \<and> score res = Finite (r m) \<and> 3 / 10 < r m \<and>
                (\<forall>j<length ps. j \<notin> used \<longrightarrow> r j \<le> r m) \<and> (\<forall>j<m. j \<notin> used \<longrightarrow> r j < r m))"
  unfolding res_def findBestMatch_def r_def
  by (rule findBestMatch_loop) (simp_all add: jaccard_finite)

lemma candidateScore_finite:
  "candidateScore para ps i = Finite (overlap (wordSet para) (wordSet (ps ! i)))"
  by (simp add: candidateScore_def jaccard_finite)

lemma lowerWord_empty_iff:
  "lowerWord c = [] \<longleftrightarrow> \<not> isWordChar c \<and> c \<noteq> 304 \<and> c \<noteq> 8490"
  by (simp add: lowerWord_def isWordChar_def)

lemma lowerWord_space: "isSpace c \<Longrightarrow> lowerWord c = []"
  by (auto simp: lowerWord_def isWordChar_def isSpace_def)

lemma isSpace_space: "isSpace 32"
  by (simp add: isSpace_def)

lemma isBlank_Cons: "isBlank (c # cs) = (isSpace c \<and> isBlank cs)"
  by (simp add: isBlank_def)

lemma isBlank_dropWhile: "isBlank s \<Longrightarrow> isBlank (dropWhile P s)"
  by (auto simp: isBlank_def list_all_iff dest: set_dropWhileD)

lemma collapseSpaces_blank: "isBlank s \<Longrightarrow> isBlank (collapseSpaces s)"
proof (induction s rule: collapseSpaces.induct)
  case 1
  then show ?case by simp
next
  case (2 c cs)
  from 2(3) have c: "isSpace c" and cs: "isBlank cs" by (simp_all add: isBlank_Cons)
  from "2.IH"(1)[OF c isBlank_dropWhile[OF cs]] c show ?case
    by (simp add: isBlank_Cons isSpace_space)
qed

lemma normalize_nonword:
  assumes "\<forall>c\<in>set t. \<not> isWordChar c \<and> c \<noteq> 304 \<and> c \<noteq> 8490"
  shows "normalizeForMatching t = []"
proof -
  have "lowerWord c = []" if "c \<in> set t" for c
    using assms that by (simp add: lowerWord_empty_iff)
  then have "isBlank (concat (map (\<lambda>c. if isSpace c then [c] else lowerWord c) t))"
    by (auto simp: isBlank_def list_all_iff split: if_splits)
  then show ?thesis
    by (simp add: normalizeForMatching_def trim_blank collapseSpaces_blank)
qed

lemma wordSet_nonword:
  "\<forall>c\<in>set t. \<not> isWordChar c \<and> c \<noteq> 304 \<and> c \<noteq> 8490 \<Longrightarrow> wordSet t = {[]}"
  by (simp add: wordSet_def normalize_nonword)

section \<open>Claims about the aligner\<close>

text \<open>
  Claim C2 (the matching threshold is strict). A candidate whose score is exactly 3/10 is
  never the index that \<^verbatim>\<open>findBestMatch\<close> returns. An unused candidate that scores above
  3/10, that no unused candidate outscores and that no earlier unused candidate equals, is
  returned with its score. Whatever index is returned, no unused candidate of the same score
  has a lower index.
\<close>

theorem matching_threshold_strict:
  "(\<forall>i<length paragraphs. candidateScore para paragraphs i = Finite (3 / 10) \<longrightarrow>
        index (findBestMatch para paragraphs usedIndices) \<noteq> int i) \<and>
   (\<forall>i<length paragraphs.
        i \<notin> usedIndices \<and> jsGreater (candidateScore para paragraphs i) (Finite (3 / 10)) \<and>
        (\<forall>j<length paragraphs. j \<notin> usedIndices \<longrightarrow>
             \<not> jsGreater (candidateScore para paragraphs j) (candidateScore para paragraphs i)) \<and>
        (\<forall>j<i. j \<notin> usedIndices \<longrightarrow>
             candidateScore para paragraphs j \<noteq> candidateScore para paragraphs i) \<longrightarrow>
        findBestMatch para paragraphs usedIndices =
          \<lparr>index = int i, score = candidateScore para paragraphs i\<rparr>) \<and>
   (\<forall>i j. index (findBestMatch para paragraphs usedIndices) = int i \<and> j < length paragraphs \<and>
        j \<notin> usedIndices \<and> candidateScore para paragraphs j = candidateScore para paragraphs i \<longrightarrow>
        i \<le> j)"
proof -
  define r where "r = (\<lambda>i. overlap (wordSet para) (wordSet (paragraphs ! i)))"
  define res where "res = findBestMatch para paragraphs usedIndices"
  have S: "candidateScore para paragraphs i = Finite (r i)" for i
    by (simp add: candidateScore_finite r_def)
  have cases: "(index res = - 1 \<and> score res = Finite 0 \<and>
                  (\<forall>j<length paragraphs. j \<notin> usedIndices \<longrightarrow> r j \<le> 3 / 10)) \<or>
         (\<exists>m<length paragraphs. m \<notin> usedIndices \<and> index res = int m \<and> score res = Finite (r m) \<and>
                3 / 10 < r m \<and>
                (\<forall>j<length paragraphs. j \<notin> usedIndices \<longrightarrow> r j \<le> r m) \<and>
                (\<forall>j<m. j \<notin> usedIndices \<longrightarrow> r j < r m))"
    unfolding res_def r_def by (rule findBestMatch_cases)
  have 1: "index res \<noteq> int i" if "i < length paragraphs" "r i = 3 / 10" for i
    using cases that by auto
  have 2: "res = \<lparr>index = int i, score = Finite (r i)\<rparr>"
    if i: "i < length paragraphs" "i \<notin> usedIndices" "3 / 10 < r i"
      and top: "\<forall>j<length paragraphs. j \<notin> usedIndices \<longrightarrow> \<not> r i < r j"
      and first: "\<forall>j<i. j \<notin> usedIndices \<longrightarrow> r j \<noteq> r i" for i
  proof -
    from cases i obtain m where m: "m < length paragraphs" "m \<notin> usedIndices" "index res = int m"
        "score res = Finite (r m)" "\<forall>j<length paragraphs. j \<notin> usedIndices \<longrightarrow> r j \<le> r m"
        "\<forall>j<m. j \<notin> usedIndices \<longrightarrow> r j < r m"
      by fastforce
    have "r i \<le> r m" using m(5) i(1,2) by blast
    moreover have "\<not> r i < r m" using top m(1,2) by blast
    ultimately have eq: "r m = r i" by simp
    have "m = i"
    proof (rule ccontr)
      assume "m \<noteq> i"
      then consider "m < i" | "i < m" by linarith
      then show False
      proof cases
        case 1
        with first m(2) eq show False by auto
      next
        case 2
        with m(6) i(2) eq show False by auto
      qed
    qed
    with m(3,4) show ?thesis by (cases res) simp
  qed
  have 3: "i \<le> j" if "index res = int i" "j < length paragraphs" "j \<notin> usedIndices" "r j = r i" for i j
    using cases that by (auto simp: not_less[symmetric])
  show ?thesis
    unfolding S res_def[symmetric] using 1 2 3 by (simp add: not_less)
qed

text \<open>
  A paragraph of six words against a candidate sharing three of ten words (score 3/10,
  not selected) and one sharing four of seven (selected); and a paragraph against two
  candidates of the same score 2/3, of which the first is returned.
\<close>

theorem matching_threshold_strict_witness:
  "candidateScore (js ''a b c d e f'') [js ''a b c g h i j'', js ''a b c d x''] 0 = Finite (3 / 10) \<and>
   index (findBestMatch (js ''a b c d e f'') [js ''a b c g h i j'', js ''a b c d x''] {}) \<noteq> 0 \<and>
   findBestMatch (js ''a b c d e f'') [js ''a b c g h i j'', js ''a b c d x''] {} =
     \<lparr>index = 1, score = Finite (4 / 7)\<rparr> \<and>
   candidateScore (js ''a b'') [js ''a b c'', js ''a b d''] 0 = candidateScore (js ''a b'') [js ''a b c'', js ''a b d''] 1 \<and>
   findBestMatch (js ''a b'') [js ''a b c'', js ''a b d''] {} = \<lparr>index = 0, score = Finite (2 / 3)\<rparr>"
proof -
  let ?P = "(js ''a b c d e f'')" and ?PS = "[js ''a b c g h i j'', js ''a b c d x'']"
  have s0: "candidateScore ?P ?PS 0 = Finite (3 / 10)" by code_simp
  have s1: "candidateScore ?P ?PS 1 = Finite (4 / 7)" by code_simp
  note inst = matching_threshold_strict[of ?PS ?P "{}"]
  from inst have "\<forall>i<length ?PS. candidateScore ?P ?PS i = Finite (3 / 10) \<longrightarrow>
          index (findBestMatch ?P ?PS {}) \<noteq> int i"
    by (rule conjunct1)
  from this[rule_format, of 0] s0 have a: "index (findBestMatch ?P ?PS {}) \<noteq> 0" by simp
  from inst have "\<forall>i<length ?PS.
        i \<notin> {} \<and> jsGreater (candidateScore ?P ?PS i) (Finite (3 / 10)) \<and>
        (\<forall>j<length ?PS. j \<notin> {} \<longrightarrow>
             \<not> jsGreater (candidateScore ?P ?PS j) (candidateScore ?P ?PS i)) \<and>
        (\<forall>j<i. j \<notin> {} \<longrightarrow> candidateScore ?P ?PS j \<noteq> candidateScore ?P ?PS i) \<longrightarrow>
        findBestMatch ?P ?PS {} = \<lparr>index = int i, score = candidateScore ?P ?PS i\<rparr>"
    by (rule conjunct1[OF conjunct2])
  from this[rule_format, of 1] s0 s1
  have b: "findBestMatch ?P ?PS {} = \<lparr>index = 1, score = Finite (4 / 7)\<rparr>"
    by (simp add: less_Suc_eq numeral_2_eq_2)
  let ?Q = "(js ''a b'')" and ?QS = "[js ''a b c'', js ''a b d'']"
  have t0: "candidateScore ?Q ?QS 0 = Finite (2 / 3)" by code_simp
  have t1: "candidateScore ?Q ?QS 1 = Finite (2 / 3)" by code_simp
  from matching_threshold_strict[of ?QS ?Q "{}"] have "\<forall>i<length ?QS.
        i \<notin> {} \<and> jsGreater (candidateScore ?Q ?QS i) (Finite (3 / 10)) \<and>
        (\<forall>j<length ?QS. j \<notin> {} \<longrightarrow>
             \<not> jsGreater (candidateScore ?Q ?QS j) (candidateScore ?Q ?QS i)) \<and>
        (\<forall>j<i. j \<notin> {} \<longrightarrow> candidateScore ?Q ?QS j \<noteq> candidateScore ?Q ?QS i) \<longrightarrow>
        findBestMatch ?Q ?QS {} = \<lparr>index = int i, score = candidateScore ?Q ?QS i\<rparr>"
    by (rule conjunct1[OF conjunct2])
  from this[rule_format, of 0] t0 t1
  have c: "findBestMatch ?Q ?QS {} = \<lparr>index = 0, score = Finite (2 / 3)\<rparr>"
    by (simp add: less_Suc_eq numeral_2_eq_2)
  from s0 a b t0 t1 c show ?thesis by simp
qed

text \<open>
  Claim C9 (no division by zero in the Jaccard score), amended. The word list of a
  normalized paragraph is never empty, so the union of two word sets is never empty and the
  score is the exact quotient, never \<open>NaN\<close> or \<open>PosInfinity\<close>. The word list is the single
  empty word when the paragraph has no word character and holds neither U+0130 (304) nor
  U+212A (8490), the two code units outside \<^verbatim>\<open>\w\<close> that \<^verbatim>\<open>toLowerCase\<close> turns into a letter.
  Two such paragraphs score 1, and such a paragraph is matched with score 1 whenever an
  unused candidate of that kind exists (to a candidate of score 1 at or before it).
\<close>

theorem jaccard_no_division_by_zero:
  "splitOnSpace (normalizeForMatching para) \<noteq> [] \<and>
   0 < card (wordSet para \<union> wordSet other) \<and>
   jaccard (wordSet para) (wordSet other) =
     Finite (of_nat (card (wordSet para \<inter> wordSet other)) / of_nat (card (wordSet para \<union> wordSet other))) \<and>
   ((\<forall>c\<in>set para. \<not> isWordChar c \<and> c \<noteq> 304 \<and> c \<noteq> 8490) \<longrightarrow>
      splitOnSpace (normalizeForMatching para) = [[]]) \<and>
   ((\<forall>c\<in>set para. \<not> isWordChar c \<and> c \<noteq> 304 \<and> c \<noteq> 8490) \<and>
    (\<forall>c\<in>set other. \<not> isWordChar c \<and> c \<noteq> 304 \<and> c \<noteq> 8490) \<longrightarrow>
      jaccard (wordSet para) (wordSet other) = Finite 1) \<and>
   ((\<forall>c\<in>set para. \<not> isWordChar c \<and> c \<noteq> 304 \<and> c \<noteq> 8490) \<and>
    i < length paragraphs \<and> i \<notin> usedIndices \<and>
    (\<forall>c\<in>set (paragraphs ! i). \<not> isWordChar c \<and> c \<noteq> 304 \<and> c \<noteq> 8490) \<longrightarrow>
      (\<exists>m\<le>i. m \<notin> usedIndices \<and> candidateScore para paragraphs m = Finite 1 \<and>
         findBestMatch para paragraphs usedIndices = \<lparr>index = int m, score = Finite 1\<rparr>))"
proof (intro conjI impI)
  show "splitOnSpace (normalizeForMatching para) \<noteq> []" by (rule splitOnSpace_nonempty)
  show "0 < card (wordSet para \<union> wordSet other)" by (rule union_card_pos)
  show "jaccard (wordSet para) (wordSet other) =
     Finite (of_nat (card (wordSet para \<inter> wordSet other)) / of_nat (card (wordSet para \<union> wordSet other)))"
    by (simp add: jaccard_finite overlap_def)
  show "splitOnSpace (normalizeForMatching para) = [[]]"
    if "\<forall>c\<in>set para. \<not> isWordChar c \<and> c \<noteq> 304 \<and> c \<noteq> 8490"
    using that by (simp add: normalize_nonword)
  show "jaccard (wordSet para) (wordSet other) = Finite 1"
    if "(\<forall>c\<in>set para. \<not> isWordChar c \<and> c \<noteq> 304 \<and> c \<noteq> 8490) \<and>
        (\<forall>c\<in>set other. \<not> isWordChar c \<and> c \<noteq> 304 \<and> c \<noteq> 8490)"
    using that by (simp add: wordSet_nonword jaccard_def jsDivide_def)
  show "\<exists>m\<le>i. m \<notin> usedIndices \<and> candidateScore para paragraphs m = Finite 1 \<and>
         findBestMatch para paragraphs usedIndices = \<lparr>index = int m, score = Finite 1\<rparr>"
    if h: "(\<forall>c\<in>set para. \<not> isWordChar c \<and> c \<noteq> 304 \<and> c \<noteq> 8490) \<and>
           i < length paragraphs \<and> i \<notin> usedIndices \<and>
           (\<forall>c\<in>set (paragraphs ! i). \<not> isWordChar c \<and> c \<noteq> 304 \<and> c \<noteq> 8490)"
  proof -
    define r where "r = (\<lambda>i. overlap (wordSet para) (wordSet (paragraphs ! i)))"
    define res where "res = findBestMatch para paragraphs usedIndices"
    have wp: "wordSet para = {[]}" using h by (simp add: wordSet_nonword)
    have wi: "wordSet (paragraphs ! i) = {[]}" using h by (simp add: wordSet_nonword)
    have ri: "r i = 1" by (simp add: r_def wp wi overlap_def)
    have ii: "i < length paragraphs" "i \<notin> usedIndices" using h by simp_all
    have le: "r j \<le> 1" for j unfolding r_def by (rule overlap_le_1) (rule wordSet_finite)+
    have "(index res = - 1 \<and> score res = Finite 0 \<and>
                  (\<forall>j<length paragraphs. j \<notin> usedIndices \<longrightarrow> r j \<le> 3 / 10)) \<or>
         (\<exists>m<length paragraphs. m \<notin> usedIndices \<and> index res = int m \<and> score res = Finite (r m) \<and>
                3 / 10 < r m \<and>
                (\<forall>j<length paragraphs. j \<notin> usedIndices \<longrightarrow> r j \<le> r m) \<and>
                (\<forall>j<m. j \<notin> usedIndices \<longrightarrow> r j < r m))"
      unfolding res_def r_def by (rule findBestMatch_cases)
    with ii ri obtain m where m: "m < length paragraphs" "m \<notin> usedIndices" "index res = int m"
        "score res = Finite (r m)" "\<forall>j<length paragraphs. j \<notin> usedIndices \<longrightarrow> r j \<le> r m"
        "\<forall>j<m. j \<notin> usedIndices \<longrightarrow> r j < r m"
      by fastforce
    from m(5) ii ri have "1 \<le> r m" by fastforce
    with le[of m] have rm: "r m = 1" by simp
    have "m \<le> i"
    proof (rule ccontr)
      assume "\<not> m \<le> i"
      with m(6) ii have "r i < r m" by simp
      with ri rm show False by simp
    qed
    moreover have "candidateScore para paragraphs m = Finite 1"
      using rm by (simp add: candidateScore_finite r_def)
    moreover have "res = \<lparr>index = int m, score = Finite 1\<rparr>" using m(3,4) rm by (cases res) simp
    ultimately show ?thesis using m(2) unfolding res_def by blast
  qed
qed

text \<open>A paragraph of dots against a candidate with words and one of punctuation only.\<close>

theorem jaccard_no_division_by_zero_witness:
  "jaccard (wordSet (js ''...'')) (wordSet (js ''!!! ?'')) = Finite 1 \<and>
   findBestMatch (js ''...'') [js ''one two'', js ''!!! ?''] {} = \<lparr>index = 1, score = Finite 1\<rparr>"
proof -
  let ?p = "js ''...''" and ?ps = "[js ''one two'', js ''!!! ?'']"
  have a: "\<forall>c\<in>set ?p. \<not> isWordChar c \<and> c \<noteq> 304 \<and> c \<noteq> 8490" by code_simp
  have b: "\<forall>c\<in>set (?ps ! 1). \<not> isWordChar c \<and> c \<noteq> 304 \<and> c \<noteq> 8490" by code_simp
  have b': "\<forall>c\<in>set (js ''!!! ?''). \<not> isWordChar c \<and> c \<noteq> 304 \<and> c \<noteq> 8490" by code_simp
  have c: "candidateScore ?p ?ps 0 \<noteq> Finite 1" by code_simp
  note inst = jaccard_no_division_by_zero[of ?p "js ''!!! ?''" 1 ?ps "{}"]
  from inst a b' have j: "jaccard (wordSet ?p) (wordSet (js ''!!! ?'')) = Finite 1" by blast
  from inst a b have "\<exists>m\<le>1. m \<notin> {} \<and> candidateScore ?p ?ps m = Finite 1 \<and>
         findBestMatch ?p ?ps {} = \<lparr>index = int m, score = Finite 1\<rparr>" by simp
  then obtain m where m: "m \<le> 1" "candidateScore ?p ?ps m = Finite 1"
     "findBestMatch ?p ?ps {} = \<lparr>index = int m, score = Finite 1\<rparr>" by blast
  from m(1,2) c have "m = 1" by (cases "m = 0") auto
  with m(3) j show ?thesis by simp
qed

text \<open>
  Claim C9 as stated fails for the paragraph that is the Kelvin sign U+212A alone: it has
  no word character, yet \<^verbatim>\<open>toLowerCase\<close> turns it into \<^verbatim>\<open>k\<close>, so its word list is the word
  \<^verbatim>\<open>k\<close> and not the empty word. Against the paragraph \<^verbatim>\<open>!!!\<close>, which has no word character
  either, it scores 0 and \<^verbatim>\<open>findBestMatch\<close> returns the index -1: the two are not matched.
\<close>

theorem jaccard_no_division_by_zero_counterexample:
  "\<not> isWordChar 8490 \<and> list_all (\<lambda>c. \<not> isWordChar c) (js ''!!!'') \<and>
   splitOnSpace (normalizeForMatching [8490]) = [js ''k''] \<and>
   splitOnSpace (normalizeForMatching (js ''!!!'')) = [[]] \<and>
   jaccard (wordSet [8490]) (wordSet (js ''!!!'')) = Finite 0 \<and>
   findBestMatch [8490] [js ''!!!''] {} = \<lparr>index = - 1, score = Finite 0\<rparr>"
  by code_simp

section \<open>Facts about the differ\<close>

lemma splitWhitespace_nonempty: "splitWhitespace s \<noteq> []"
  by (induction s rule: splitWhitespace.induct) (auto split: list.splits)

lemma concat_splitWhitespace: "concat (splitWhitespace s) = s"
proof (induction s rule: splitWhitespace.induct)
  case 1
  then show ?case by simp
next
  case (2 c cs)
  show ?case
  proof (cases "isSpace c")
    case True
    with 2 show ?thesis by simp
  next
    case False
    with 2 show ?thesis
      by (cases "splitWhitespace cs") (auto simp: splitWhitespace_nonempty)
  qed
qed

lemma isSpace_not_word: "isSpace c \<Longrightarrow> \<not> isWordChar c"
  by (auto simp: isSpace_def isWordChar_def)

lemma normalizeWord_nonword:
  "\<forall>c\<in>set w. \<not> isWordChar c \<and> c \<noteq> 304 \<and> c \<noteq> 8490 \<Longrightarrow> normalizeWord w = []"
  by (simp add: normalizeWord_def lowerWord_empty_iff)

lemma normalizeWord_blank: "isBlank w \<Longrightarrow> normalizeWord w = []"
  by (simp add: normalizeWord_def isBlank_def list_all_iff lowerWord_space)

lemma comparator_refl: "comparator a a"
  by (simp add: comparator_def)

lemma comparator_sym: "comparator a b \<Longrightarrow> comparator b a"
  by (simp add: comparator_def)

text \<open>What the rendering loop accumulates.\<close>

lemma marked_trim: "markedPart p = ((added p \<or> removed p) \<and> trim (concat (partValue p)) \<noteq> [])"
  by (simp add: markedPart_def trim_blank)

lemma renderPart_flag:
  "hasRealChanges (renderPart st p) = (hasRealChanges st \<or> markedPart p)"
  by (auto simp: renderPart_def Let_def marked_trim)

lemma renderPart_unchanged:
  "unchangedChars (renderPart st p) =
     unchangedChars st + (if unchangedPart p then nonSpaceLength p else 0)"
  by (auto simp: renderPart_def Let_def unchangedPart_def nonSpaceLength_def)

lemma renderPart_total:
  "totalChars (renderPart st p) =
     totalChars st + (if unchangedPart p \<or> markedPart p then nonSpaceLength p else 0)"
  by (auto simp: renderPart_def Let_def unchangedPart_def nonSpaceLength_def marked_trim)

lemma render_loop:
  "hasRealChanges (foldl renderPart st ps) = (hasRealChanges st \<or> (\<exists>p\<in>set ps. markedPart p)) \<and>
   unchangedChars (foldl renderPart st ps) =
     unchangedChars st + sum_list (map nonSpaceLength (filter unchangedPart ps)) \<and>
   totalChars (foldl renderPart st ps) =
     totalChars st + sum_list (map nonSpaceLength (filter (\<lambda>p. unchangedPart p \<or> markedPart p) ps))"
proof (induction ps arbitrary: st)
  case Nil
  then show ?case by simp
next
  case (Cons p ps)
  show ?case
    using Cons.IH[of "renderPart st p"]
    by (auto simp: renderPart_flag renderPart_unchanged renderPart_total)
qed

lemma renderParts_counts:
  "hasRealChanges (renderParts ps) = (\<exists>p\<in>set ps. markedPart p)"
  "unchangedChars (renderParts ps) = sum_list (map nonSpaceLength (filter unchangedPart ps))"
  "totalChars (renderParts ps) =
     sum_list (map nonSpaceLength (filter (\<lambda>p. unchangedPart p \<or> markedPart p) ps))"
  using render_loop[of "\<lparr>html = [], hasRealChanges = False, unchangedChars = 0, totalChars = 0\<rparr>" ps]
  by (simp_all add: renderParts_def)

text \<open>The reference diff satisfies both properties asked of \<^verbatim>\<open>Diff.diffArrays\<close>.\<close>

lemma edits_all_equal: "list_all2 eq xs ys \<Longrightarrow> edits eq xs ys = map Keep ys"
  by (induction eq xs ys rule: edits.induct) auto

lemma foldr_pushEdit_keep:
  "ys \<noteq> [] \<Longrightarrow> foldr pushEdit (map Keep ys) [] = [\<lparr>added = False, removed = False, partValue = ys\<rparr>]"
proof (induction ys)
  case Nil
  then show ?case by simp
next
  case (Cons y ys)
  then show ?case by (cases ys) auto
qed

lemma simpleDiffArrays_equalityPass: "equalityPass simpleDiffArrays"
proof -
  have "simpleDiffArrays xs ys eq = [\<lparr>added = False, removed = False, partValue = ys\<rparr>]"
    if "xs \<noteq> []" "list_all2 (\<lambda>a b. eq a b \<and> eq b a) xs ys" for xs ys eq
  proof -
    from that(2) have a: "list_all2 eq xs ys" by (rule list_all2_mono) simp
    from that have "ys \<noteq> []" by auto
    with a show ?thesis by (simp add: simpleDiffArrays_def edits_all_equal foldr_pushEdit_keep)
  qed
  then show ?thesis unfolding equalityPass_def by blast
qed

lemma editFrom_mono:
  "editFrom xs ys e \<Longrightarrow> set xs \<subseteq> set xs' \<Longrightarrow> set ys \<subseteq> set ys' \<Longrightarrow> editFrom xs' ys' e"
  by (cases e) auto

lemma edits_from: "e \<in> set (edits eq xs ys) \<Longrightarrow> editFrom xs ys e"
proof (induction eq xs ys arbitrary: e rule: edits.induct)
  case (1 eq ys)
  then show ?case by auto
next
  case (2 eq x xs)
  then show ?case by auto
next
  case (3 eq x xs y ys)
  show ?case
  proof (cases "eq x y")
    case True
    with 3(4) have "e = Keep y \<or> e \<in> set (edits eq xs ys)" by auto
    then show ?thesis
    proof
      assume "e = Keep y"
      then show ?thesis by simp
    next
      assume "e \<in> set (edits eq xs ys)"
      from "3.IH"(1)[OF True this] show ?thesis by (rule editFrom_mono) auto
    qed
  next
    case False
    with 3(4) have "e = Del x \<or> e \<in> set (edits eq xs (y # ys)) \<or> e = Ins y \<or> e \<in> set (edits eq (x # xs) ys)"
      by (auto split: if_splits)
    then show ?thesis
    proof (elim disjE)
      assume "e = Del x" then show ?thesis by simp
    next
      assume "e \<in> set (edits eq xs (y # ys))"
      from "3.IH"(2)[OF False this] show ?thesis by (rule editFrom_mono) auto
    next
      assume "e = Ins y" then show ?thesis by simp
    next
      assume "e \<in> set (edits eq (x # xs) ys)"
      from "3.IH"(3)[OF False this] show ?thesis by (rule editFrom_mono) auto
    qed
  qed
qed

lemma pushEdit_from:
  "editFrom xs ys e \<Longrightarrow> \<forall>p\<in>set ps. partFrom xs ys p \<Longrightarrow> \<forall>p\<in>set (pushEdit e ps). partFrom xs ys p"
  by (cases "(e, ps)" rule: pushEdit.cases) (auto simp: partFrom_def)

lemma foldr_pushEdit_from:
  "\<forall>e\<in>set es. editFrom xs ys e \<Longrightarrow> \<forall>p\<in>set (foldr pushEdit es []). partFrom xs ys p"
  by (induction es) (auto intro: pushEdit_from[rule_format])

lemma simpleDiffArrays_partsFromInputs: "partsFromInputs simpleDiffArrays"
  unfolding partsFromInputs_def simpleDiffArrays_def
  using foldr_pushEdit_from[of "edits eq xs ys" xs ys for eq xs ys] edits_from
  by (auto simp: partFrom_def)

lemma renderParts_single_unchanged:
  "renderParts [\<lparr>added = False, removed = False, partValue = ws\<rparr>] =
     \<lparr>html = escapeHtml (concat ws), hasRealChanges = False,
      unchangedChars = length (filter (\<lambda>c. \<not> isSpace c) (concat ws)),
      totalChars = length (filter (\<lambda>c. \<not> isSpace c) (concat ws))\<rparr>"
  by (simp add: renderParts_def renderPart_def Let_def)

lemma diff_equal_tokens:
  assumes "equalityPass diffArrays"
    and "list_all2 comparator (splitWhitespace oldPara) (splitWhitespace newPara)"
  shows "diffArrays (splitWhitespace oldPara) (splitWhitespace newPara) comparator =
           [\<lparr>added = False, removed = False, partValue = splitWhitespace newPara\<rparr>]"
proof -
  have "list_all2 (\<lambda>a b. comparator a b \<and> comparator b a) (splitWhitespace oldPara) (splitWhitespace newPara)"
    using assms(2) by (rule list_all2_mono) (simp add: comparator_sym)
  with assms(1) splitWhitespace_nonempty[of oldPara] show ?thesis
    unfolding equalityPass_def by blast
qed

lemma render_equal_tokens:
  assumes "equalityPass diffArrays"
    and "list_all2 comparator (splitWhitespace oldPara) (splitWhitespace newPara)"
  shows "renderParts (diffArrays (splitWhitespace oldPara) (splitWhitespace newPara) comparator) =
     \<lparr>html = escapeHtml newPara, hasRealChanges = False,
      unchangedChars = length (filter (\<lambda>c. \<not> isSpace c) newPara),
      totalChars = length (filter (\<lambda>c. \<not> isSpace c) newPara)\<rparr>"
  by (simp add: diff_equal_tokens[OF assms] renderParts_single_unchanged concat_splitWhitespace)

lemma no_changes_equal_tokens:
  assumes "equalityPass diffArrays"
    and "list_all2 comparator (splitWhitespace oldPara) (splitWhitespace newPara)"
  shows "\<not> hasChanges (diffParagraphs diffArrays oldPara newPara)"
  by (simp add: diffParagraphs_def Let_def render_equal_tokens[OF assms])

section \<open>Claims about the differ\<close>

text \<open>
  Claim C3 (classification boundary). For any array diff: the pair has changes exactly
  when some part is a marked insertion or deletion; \<open>unchangedChars\<close> is the number of
  non-space characters of the unchanged parts and \<open>totalChars\<close> that of the unchanged and
  the marked parts; the ratio is their quotient, and 1 when \<open>totalChars\<close> is 0; a pair with
  changes is classified \<open>replaced\<close> exactly when the ratio is strictly below 1/2, so a ratio of
  exactly 1/2 is classified \<open>changed\<close>.
\<close>

theorem classification_boundary:
  "hasChanges (diffParagraphs diffArrays oldPara newPara) =
     (\<exists>p\<in>set (diffArrays (splitWhitespace oldPara) (splitWhitespace newPara) comparator). markedPart p) \<and>
   unchangedChars (renderParts (diffArrays (splitWhitespace oldPara) (splitWhitespace newPara) comparator)) =
     sum_list (map nonSpaceLength (filter unchangedPart
       (diffArrays (splitWhitespace oldPara) (splitWhitespace newPara) comparator))) \<and>
   totalChars (renderParts (diffArrays (splitWhitespace oldPara) (splitWhitespace newPara) comparator)) =
     sum_list (map nonSpaceLength (filter (\<lambda>p. unchangedPart p \<or> markedPart p)
       (diffArrays (splitWhitespace oldPara) (splitWhitespace newPara) comparator))) \<and>
   unchangedRatio (renderParts (diffArrays (splitWhitespace oldPara) (splitWhitespace newPara) comparator)) =
     (if totalChars (renderParts (diffArrays (splitWhitespace oldPara) (splitWhitespace newPara) comparator)) = 0
      then 1
      else of_nat (unchangedChars (renderParts (diffArrays (splitWhitespace oldPara) (splitWhitespace newPara) comparator))) /
           of_nat (totalChars (renderParts (diffArrays (splitWhitespace oldPara) (splitWhitespace newPara) comparator)))) \<and>
   (hasChanges (diffParagraphs diffArrays oldPara newPara) \<longrightarrow>
      (pairType (diffParagraphs diffArrays oldPara newPara) = TypeReplaced) =
      (unchangedRatio (renderParts (diffArrays (splitWhitespace oldPara) (splitWhitespace newPara) comparator)) < 1 / 2)) \<and>
   (unchangedRatio (renderParts (diffArrays (splitWhitespace oldPara) (splitWhitespace newPara) comparator)) = 1 / 2 \<longrightarrow>
      pairType (diffParagraphs diffArrays oldPara newPara) = TypeChanged)"
proof -
  define changes where
    "changes = diffArrays (splitWhitespace oldPara) (splitWhitespace newPara) comparator"
  define st where "st = renderParts changes"
  have h: "hasChanges (diffParagraphs diffArrays oldPara newPara) = hasRealChanges st"
    by (simp add: diffParagraphs_def Let_def st_def changes_def)
  have t: "pairType (diffParagraphs diffArrays oldPara newPara) =
             (if hasRealChanges st \<and> unchangedRatio st < 1 / 2 then TypeReplaced else TypeChanged)"
    by (simp add: diffParagraphs_def Let_def st_def changes_def)
  have 1: "hasRealChanges st = (\<exists>p\<in>set changes. markedPart p)"
    unfolding st_def by (rule renderParts_counts)
  have 2: "unchangedChars st = sum_list (map nonSpaceLength (filter unchangedPart changes))"
    unfolding st_def by (rule renderParts_counts)
  have 3: "totalChars st =
             sum_list (map nonSpaceLength (filter (\<lambda>p. unchangedPart p \<or> markedPart p) changes))"
    unfolding st_def by (rule renderParts_counts)
  have 4: "unchangedRatio st =
             (if totalChars st = 0 then 1 else of_nat (unchangedChars st) / of_nat (totalChars st))"
    by (simp add: unchangedRatio_def)
  have 5: "hasRealChanges st \<longrightarrow>
             (pairType (diffParagraphs diffArrays oldPara newPara) = TypeReplaced) =
             (unchangedRatio st < 1 / 2)"
    unfolding t by simp
  have 6: "unchangedRatio st = 1 / 2 \<longrightarrow>
             pairType (diffParagraphs diffArrays oldPara newPara) = TypeChanged"
    unfolding t by simp
  from 1 2 3 4 5 6 show ?thesis
    unfolding h st_def changes_def by blast
qed

text \<open>
  Two characters unchanged of four gives the ratio 1/2 and the type \<open>changed\<close>; one of
  three gives 1/3 and the type \<open>replaced\<close>.
\<close>

theorem classification_boundary_witness:
  "hasChanges (diffParagraphs simpleDiffArrays (js ''aa b'') (js ''aa c'')) \<and>
   unchangedRatio (renderParts (simpleDiffArrays (splitWhitespace (js ''aa b'')) (splitWhitespace (js ''aa c'')) comparator)) = 1 / 2 \<and>
   pairType (diffParagraphs simpleDiffArrays (js ''aa b'') (js ''aa c'')) = TypeChanged \<and>
   hasChanges (diffParagraphs simpleDiffArrays (js ''a b'') (js ''a c'')) \<and>
   unchangedRatio (renderParts (simpleDiffArrays (splitWhitespace (js ''a b'')) (splitWhitespace (js ''a c'')) comparator)) = 1 / 3 \<and>
   pairType (diffParagraphs simpleDiffArrays (js ''a b'') (js ''a c'')) = TypeReplaced"
proof -
  have h1: "hasChanges (diffParagraphs simpleDiffArrays (js ''aa b'') (js ''aa c''))" by code_simp
  have r1: "unchangedRatio (renderParts (simpleDiffArrays (splitWhitespace (js ''aa b'')) (splitWhitespace (js ''aa c'')) comparator)) = 1 / 2"
    by code_simp
  have h2: "hasChanges (diffParagraphs simpleDiffArrays (js ''a b'') (js ''a c''))" by code_simp
  have r2: "unchangedRatio (renderParts (simpleDiffArrays (splitWhitespace (js ''a b'')) (splitWhitespace (js ''a c'')) comparator)) = 1 / 3"
    by code_simp
  from classification_boundary[of simpleDiffArrays "(js ''aa b'')" "(js ''aa c'')"] r1
  have t1: "pairType (diffParagraphs simpleDiffArrays (js ''aa b'') (js ''aa c'')) = TypeChanged" by simp
  from classification_boundary[of simpleDiffArrays "(js ''a b'')" "(js ''a c'')"] h2 r2
  have t2: "pairType (diffParagraphs simpleDiffArrays (js ''a b'') (js ''a c'')) = TypeReplaced" by simp
  from h1 r1 t1 h2 r2 t2 show ?thesis by simp
qed

text \<open>
  Claim C10 (punctuation-only tokens compare equal), amended. A token that has no word
  character and holds neither U+0130 (304) nor U+212A (8490), the two code units outside
  \<^verbatim>\<open>\w\<close> that \<^verbatim>\<open>toLowerCase\<close> turns into a letter, is normalized to the empty string, so two
  such tokens are equal for the comparator. When the new paragraph differs from the old one
  in a single token and both tokens are of that kind, an array diff with the equality pass
  returns one unchanged part: \<^verbatim>\<open>diffParagraphs\<close> reports no change, the rendering is the
  escaped new paragraph without markers, and all its non-space characters count as
  unchanged.
\<close>

theorem punctuation_tokens_compare_equal:
  assumes "equalityPass diffArrays"
    and "splitWhitespace oldPara = before @ [a] @ after"
    and "splitWhitespace newPara = before @ [b] @ after"
    and "\<forall>c\<in>set a. \<not> isWordChar c \<and> c \<noteq> 304 \<and> c \<noteq> 8490"
    and "\<forall>c\<in>set b. \<not> isWordChar c \<and> c \<noteq> 304 \<and> c \<noteq> 8490"
  shows "normalizeWord a = [] \<and> normalizeWord b = [] \<and> comparator a b \<and>
         diffArrays (splitWhitespace oldPara) (splitWhitespace newPara) comparator =
           [\<lparr>added = False, removed = False, partValue = before @ [b] @ after\<rparr>] \<and>
         \<not> hasChanges (diffParagraphs diffArrays oldPara newPara) \<and>
         pairHtml (diffParagraphs diffArrays oldPara newPara) = escapeHtml newPara \<and>
         unchangedChars (renderParts (diffArrays (splitWhitespace oldPara) (splitWhitespace newPara) comparator)) =
           length (filter (\<lambda>c. \<not> isSpace c) newPara) \<and>
         totalChars (renderParts (diffArrays (splitWhitespace oldPara) (splitWhitespace newPara) comparator)) =
           length (filter (\<lambda>c. \<not> isSpace c) newPara)"
proof -
  have na: "normalizeWord a = []" using assms(4) by (rule normalizeWord_nonword)
  have nb: "normalizeWord b = []" using assms(5) by (rule normalizeWord_nonword)
  have ab: "comparator a b" by (simp add: comparator_def na nb)
  have same: "list_all2 comparator xs xs" for xs
    by (simp add: list_all2_same comparator_refl)
  have "list_all2 comparator (before @ [a] @ after) (before @ [b] @ after)"
    using ab same by (simp add: list_all2_appendI)
  then have eq: "list_all2 comparator (splitWhitespace oldPara) (splitWhitespace newPara)"
    by (simp add: assms(2,3))
  note d = diff_equal_tokens[OF assms(1) eq] and r = render_equal_tokens[OF assms(1) eq]
  from na nb ab d r show ?thesis
    by (simp add: assms(3) diffParagraphs_def Let_def)
qed

text \<open>
  Replacing the token \<^verbatim>\<open>!!!\<close> by the token of three em dashes (U+2014, 8212) between two
  words.
\<close>

theorem punctuation_tokens_compare_equal_witness:
  "comparator (js ''!!!'') [8212, 8212, 8212] \<and>
   \<not> hasChanges (diffParagraphs simpleDiffArrays (js ''wait !!! now'')
        (js ''wait '' @ [8212, 8212, 8212] @ js '' now'')) \<and>
   pairHtml (diffParagraphs simpleDiffArrays (js ''wait !!! now'')
        (js ''wait '' @ [8212, 8212, 8212] @ js '' now'')) =
     js ''wait '' @ [8212, 8212, 8212] @ js '' now'' \<and>
   unchangedChars (renderParts (simpleDiffArrays (splitWhitespace (js ''wait !!! now''))
      (splitWhitespace (js ''wait '' @ [8212, 8212, 8212] @ js '' now'')) comparator)) = 10"
proof -
  let ?n = "js ''wait '' @ [8212, 8212, 8212] @ js '' now''"
  have o: "splitWhitespace (js ''wait !!! now'') = [js ''wait'', [32]] @ [js ''!!!''] @ [[32], js ''now'']"
    by code_simp
  have n: "splitWhitespace ?n = [js ''wait'', [32]] @ [[8212, 8212, 8212]] @ [[32], js ''now'']"
    by code_simp
  have a: "\<forall>c\<in>set (js ''!!!''). \<not> isWordChar c \<and> c \<noteq> 304 \<and> c \<noteq> 8490" by code_simp
  have b: "\<forall>c\<in>set [8212, 8212, 8212]. \<not> isWordChar c \<and> c \<noteq> 304 \<and> c \<noteq> 8490" by code_simp
  have e: "escapeHtml ?n = ?n" by code_simp
  have l: "length (filter (\<lambda>c. \<not> isSpace c) ?n) = 10" by code_simp
  from punctuation_tokens_compare_equal[OF simpleDiffArrays_equalityPass o n a b, unfolded e l]
  show ?thesis by blast
qed

text \<open>
  Claim C10 as stated fails for the token that is the Kelvin sign U+212A alone: it has no
  word character, yet \<^verbatim>\<open>toLowerCase\<close> turns it into \<^verbatim>\<open>k\<close>, so \<^verbatim>\<open>normalizeWord\<close> returns \<^verbatim>\<open>k\<close>
  and the comparator tells it from the token \<^verbatim>\<open>!!!\<close>. The comparator is false at the third
  token of the two paragraphs below, so the equality pass does not reach the end; the
  reference diff reports the change.
\<close>

theorem punctuation_tokens_compare_equal_counterexample:
  "\<not> isWordChar 8490 \<and> list_all (\<lambda>c. \<not> isWordChar c) (js ''!!!'') \<and>
   normalizeWord [8490] = js ''k'' \<and> normalizeWord (js ''!!!'') = [] \<and>
   \<not> comparator (js ''!!!'') [8490] \<and>
   splitWhitespace (js ''wait !!! now'') = [js ''wait'', [32], js ''!!!'', [32], js ''now''] \<and>
   splitWhitespace (js ''wait '' @ [8490] @ js '' now'') = [js ''wait'', [32], [8490], [32], js ''now''] \<and>
   hasChanges (diffParagraphs simpleDiffArrays (js ''wait !!! now'') (js ''wait '' @ [8490] @ js '' now''))"
  by code_simp

section \<open>Facts about paragraphs and their tokens\<close>

lemma trim_blank_or_tight: "trim x = [] \<or> tight (trim x)"
proof (cases "trim x = []")
  case True
  then show ?thesis by simp
next
  case False
  let ?d = "dropWhile isSpace x"
  let ?e = "dropWhile isSpace (rev ?d)"
  have t: "trim x = rev ?e" by (simp add: trim_def)
  with False have ene: "?e \<noteq> []" by simp
  then have l: "\<not> isSpace (hd ?e)" by (rule hd_dropWhile)
  have dne: "?d \<noteq> []"
  proof
    assume a: "?d = []"
    have "?e = dropWhile isSpace (rev [])" by (simp only: a)
    with ene show False by simp
  qed
  then have h: "\<not> isSpace (hd ?d)" by (rule hd_dropWhile)
  have "last (takeWhile isSpace (rev ?d) @ ?e) = last ?e" using ene by (rule last_appendR)
  then have "last ?e = last (rev ?d)" by simp
  then have "last ?e = hd ?d" using dne by (simp add: last_rev)
  with h have "\<not> isSpace (last ?e)" by simp
  then have "\<not> isSpace (hd (rev ?e))" using ene by (simp add: hd_rev)
  moreover have "\<not> isSpace (last (rev ?e))" using l ene by (simp add: last_rev)
  ultimately show ?thesis using ene t by (simp add: tight_def)
qed

lemma paragraph_blank_or_tight:
  assumes "p \<in> set (splitIntoParagraphs t)"
  shows "isBlank p \<or> tight p"
proof (cases "isBlank t")
  case True
  with assms show ?thesis by (simp add: splitIntoParagraphs_blank)
next
  case False
  with assms obtain g where "p = trim (joinSentences g)"
    by (auto simp: splitIntoParagraphs_groups)
  with trim_blank_or_tight[of "joinSentences g"] show ?thesis
    by (auto simp: isBlank_def)
qed

lemma tokens_of_blank: "isBlank s \<Longrightarrow> t \<in> set (splitWhitespace s) \<Longrightarrow> isBlank t"
proof -
  assume b: "isBlank s" and t: "t \<in> set (splitWhitespace s)"
  have "set t \<subseteq> set (concat (splitWhitespace s))" using t by auto
  then have "set t \<subseteq> set s" by (simp add: concat_splitWhitespace)
  with b show "isBlank t" by (auto simp: isBlank_def list_all_iff)
qed

lemma splitWhitespace_shape:
  assumes "s = [] \<or> \<not> isSpace (last s)"
  shows "\<exists>w rest. splitWhitespace s = w # rest \<and> (\<forall>c\<in>set w. \<not> isSpace c) \<and>
           (s \<noteq> [] \<and> \<not> isSpace (hd s) \<longrightarrow> w \<noteq> []) \<and> gapsAndWords rest"
  using assms
proof (induction s rule: splitWhitespace.induct)
  case 1
  then show ?case by simp
next
  case (2 c cs)
  show ?case
  proof (cases "isSpace c")
    case True
    let ?d = "dropWhile isSpace cs"
    from 2(3) True have cs: "cs \<noteq> []" "\<not> isSpace (last cs)" by (auto split: if_splits)
    have dne: "?d \<noteq> []"
    proof
      assume "?d = []"
      then have "\<forall>x\<in>set cs. isSpace x" by (simp add: dropWhile_eq_Nil_conv)
      with cs show False using last_in_set by blast
    qed
    have "last (takeWhile isSpace cs @ ?d) = last ?d" using dne by (rule last_appendR)
    with cs have ld: "\<not> isSpace (last ?d)" by simp
    have hd: "\<not> isSpace (hd ?d)" using dne by (rule hd_dropWhile)
    from "2.IH"(1)[OF True] ld dne hd obtain w rest where
      w: "splitWhitespace ?d = w # rest" "\<forall>c\<in>set w. \<not> isSpace c" "w \<noteq> []" "gapsAndWords rest"
      by auto
    have gap: "isGapToken (c # takeWhile isSpace cs)"
      using True by (auto simp: isGapToken_def isBlank_def list_all_iff dest: set_takeWhileD)
    from w gap True show ?thesis by (simp add: isWordToken_def)
  next
    case False
    have "cs = [] \<or> \<not> isSpace (last cs)" using 2(3) by (auto split: if_splits)
    from "2.IH"(2)[OF False this] obtain w rest where
      w: "splitWhitespace cs = w # rest" "\<forall>c\<in>set w. \<not> isSpace c" "gapsAndWords rest"
      by auto
    with False show ?thesis by simp
  qed
qed

lemma tokens_of_tight: "tight s \<Longrightarrow> wordsAndGaps (splitWhitespace s)"
proof -
  assume t: "tight s"
  then have "s = [] \<or> \<not> isSpace (last s)" by (simp add: tight_def)
  from splitWhitespace_shape[OF this] t show ?thesis
    by (auto simp: tight_def isWordToken_def)
qed

lemma word_not_blank: "isWordToken w \<Longrightarrow> \<not> isBlank w"
  by (cases w) (auto simp: isWordToken_def isBlank_def)

lemma gap_blank: "isGapToken g \<Longrightarrow> isBlank g"
  by (simp add: isGapToken_def)

lemma gapsAndWords_filter:
  "gapsAndWords xs \<Longrightarrow> gapsAndWords ys \<Longrightarrow>
     filter (\<lambda>t. \<not> isBlank t) xs = filter (\<lambda>t. \<not> isBlank t) ys \<Longrightarrow>
     list_all2 comparator xs ys"
proof (induction xs arbitrary: ys rule: gapsAndWords.induct)
  case 1
  from 1(2,3) show ?case
    by (cases ys rule: gapsAndWords.cases) (auto simp: word_not_blank gap_blank)
next
  case (2 g)
  then show ?case by simp
next
  case (3 g w rest)
  from 3(2) have g: "isGapToken g" and w: "isWordToken w" and r: "gapsAndWords rest" by auto
  show ?case
  proof (cases ys rule: gapsAndWords.cases)
    case 1
    with 3(4) g w show ?thesis by (auto simp: word_not_blank gap_blank)
  next
    case (2 g')
    with 3(3) show ?thesis by simp
  next
    case (3 g' w' rest')
    with "3.prems"(2) have g': "isGapToken g'" and w': "isWordToken w'" and r': "gapsAndWords rest'"
      by auto
    from "3.prems"(3) 3 g g' w w' have "w = w'"
      and f: "filter (\<lambda>t. \<not> isBlank t) rest = filter (\<lambda>t. \<not> isBlank t) rest'"
      by (auto simp: word_not_blank gap_blank)
    have "comparator g g'"
      using g g' by (simp add: comparator_def normalizeWord_blank gap_blank)
    with "3.IH"[OF r r' f] \<open>w = w'\<close> 3 show ?thesis by (simp add: comparator_refl)
  qed
qed

lemma wordsAndGaps_filter:
  assumes "wordsAndGaps xs" "wordsAndGaps ys"
    and "filter (\<lambda>t. \<not> isBlank t) xs = filter (\<lambda>t. \<not> isBlank t) ys"
  shows "list_all2 comparator xs ys"
proof -
  from assms(1) obtain w rest where x: "xs = w # rest" "isWordToken w" "gapsAndWords rest"
    by (cases xs) auto
  from assms(2) obtain w' rest' where y: "ys = w' # rest'" "isWordToken w'" "gapsAndWords rest'"
    by (cases ys) auto
  from assms(3) x y have "w = w'"
    and f: "filter (\<lambda>t. \<not> isBlank t) rest = filter (\<lambda>t. \<not> isBlank t) rest'"
    by (auto simp: word_not_blank)
  with gapsAndWords_filter[OF x(3) y(3) f] x y show ?thesis by (simp add: comparator_refl)
qed

lemma wordsAndGaps_has_word: "wordsAndGaps xs \<Longrightarrow> filter (\<lambda>t. \<not> isBlank t) xs \<noteq> []"
  by (cases xs) (auto simp: word_not_blank)

section \<open>Facts about the orchestration\<close>

lemma findBestMatch_index:
  assumes "0 \<le> index (findBestMatch para ps used)"
  shows "nat (index (findBestMatch para ps used)) < length ps \<and>
         nat (index (findBestMatch para ps used)) \<notin> used"
  using findBestMatch_cases[of para ps used] assms by auto

lemma findBestMatch_self:
  assumes "k < length ps"
  shows "findBestMatch (ps ! k) ps {0..<k} = \<lparr>index = int k, score = Finite 1\<rparr>"
proof -
  define r where "r = (\<lambda>i. overlap (wordSet (ps ! k)) (wordSet (ps ! i)))"
  define res where "res = findBestMatch (ps ! k) ps {0..<k}"
  have rk: "r k = 1" unfolding r_def by (rule overlap_self) (simp_all add: wordSet_finite wordSet_nonempty)
  have le: "r j \<le> 1" for j unfolding r_def by (rule overlap_le_1) (rule wordSet_finite)+
  have kn: "k \<notin> {0..<k}" by simp
  have "(index res = - 1 \<and> score res = Finite 0 \<and>
                  (\<forall>j<length ps. j \<notin> {0..<k} \<longrightarrow> r j \<le> 3 / 10)) \<or>
         (\<exists>m<length ps. m \<notin> {0..<k} \<and> index res = int m \<and> score res = Finite (r m) \<and>
                3 / 10 < r m \<and>
                (\<forall>j<length ps. j \<notin> {0..<k} \<longrightarrow> r j \<le> r m) \<and>
                (\<forall>j<m. j \<notin> {0..<k} \<longrightarrow> r j < r m))"
    unfolding res_def r_def by (rule findBestMatch_cases)
  with assms rk kn obtain m where m: "m < length ps" "m \<notin> {0..<k}" "index res = int m"
      "score res = Finite (r m)" "\<forall>j<length ps. j \<notin> {0..<k} \<longrightarrow> r j \<le> r m"
      "\<forall>j<m. j \<notin> {0..<k} \<longrightarrow> r j < r m"
    by fastforce
  from m(5) assms kn rk have "1 \<le> r m" by fastforce
  with le[of m] have rm: "r m = 1" by simp
  have "\<not> k < m"
  proof
    assume "k < m"
    with m(6) kn have "r k < r m" by blast
    with rk rm show False by simp
  qed
  with m(2) have "m = k" by simp
  with m(3,4) rm show ?thesis unfolding res_def by (cases "findBestMatch (ps ! k) ps {0..<k}") simp
qed

lemma no_changes_self:
  assumes "equalityPass diffArrays"
  shows "\<not> hasChanges (diffParagraphs diffArrays p p)"
  using assms by (rule no_changes_equal_tokens) (simp add: list_all2_same comparator_refl)

lemma self_step:
  assumes "equalityPass diffArrays" "k < length ps"
  shows "diffStep diffArrays ps \<lparr>entries = [], usedOld = {0..<k}\<rparr> (ps ! k) =
           \<lparr>entries = [], usedOld = {0..<Suc k}\<rparr>"
proof -
  have "insert k {0..<k} = {0..<Suc k}" by auto
  then show ?thesis
    using no_changes_self[OF assms(1)] findBestMatch_self[OF assms(2)]
    by (simp add: diffStep_def Let_def)
qed

lemma self_loop:
  assumes "equalityPass diffArrays"
  shows "n = length ps - k \<Longrightarrow> k \<le> length ps \<Longrightarrow>
         foldl (diffStep diffArrays ps) \<lparr>entries = [], usedOld = {0..<k}\<rparr> (drop k ps) =
           \<lparr>entries = [], usedOld = {0..<length ps}\<rparr>"
proof (induction n arbitrary: k)
  case 0
  then show ?case by simp
next
  case (Suc n)
  then have k: "k < length ps" by simp
  then have d: "drop k ps = ps ! k # drop (Suc k) ps" by (simp add: Cons_nth_drop_Suc)
  from Suc k have "foldl (diffStep diffArrays ps) \<lparr>entries = [], usedOld = {0..<Suc k}\<rparr> (drop (Suc k) ps) =
           \<lparr>entries = [], usedOld = {0..<length ps}\<rparr>" by simp
  then show ?case by (simp add: d self_step[OF assms k])
qed

lemma diff_identical_lists:
  assumes "equalityPass diffArrays"
  shows "diffParagraphLists diffArrays ps ps = []"
proof -
  have "alignLoop diffArrays ps ps = \<lparr>entries = [], usedOld = {0..<length ps}\<rparr>"
    using self_loop[OF assms, of "length ps" ps 0] by (simp add: alignLoop_def)
  then show ?thesis by (simp add: diffParagraphLists_def removedEntries_def)
qed

text \<open>One step of the alignment loop appends at most one entry, that of the new paragraph.\<close>

lemma diffStep_entries:
  "entries (diffStep diffArrays oldParas st p) = entries st \<or>
   (\<exists>e. entries (diffStep diffArrays oldParas st p) = entries st @ [e] \<and>
        entryOf diffArrays oldParas p e)"
proof (cases "0 \<le> index (findBestMatch p oldParas (usedOld st))")
  case True
  let ?j = "nat (index (findBestMatch p oldParas (usedOld st)))"
  from findBestMatch_index[OF True] have "oldParas ! ?j \<in> set oldParas" by simp
  then show ?thesis using True
    by (auto simp: diffStep_def Let_def entryOf_def diffParagraphs_def)
next
  case False
  then show ?thesis by (simp add: diffStep_def Let_def entryOf_def)
qed

lemma align_loop_order:
  "\<exists>is es. entries (foldl (diffStep diffArrays oldParas) st ps) = entries st @ es \<and>
           length is = length es \<and> sorted_wrt (<) is \<and>
           (\<forall>i\<in>set is. length pre \<le> i \<and> i < length pre + length ps) \<and>
           (\<forall>k<length es. entryOf diffArrays oldParas ((pre @ ps) ! (is ! k)) (es ! k))"
proof (induction ps arbitrary: st pre)
  case Nil
  show ?case by (rule exI[of _ "[]"], rule exI[of _ "[]"]) simp
next
  case (Cons p ps)
  let ?st = "diffStep diffArrays oldParas st p"
  from Cons.IH[of ?st "pre @ [p]"] obtain is1 es1 where
    1: "entries (foldl (diffStep diffArrays oldParas) ?st ps) = entries ?st @ es1"
       "length is1 = length es1" "sorted_wrt (<) is1"
       "\<forall>i\<in>set is1. length pre + 1 \<le> i \<and> i < length pre + 1 + length ps"
       "\<forall>k<length es1. entryOf diffArrays oldParas ((pre @ p # ps) ! (is1 ! k)) (es1 ! k)"
    by auto
  from diffStep_entries[of diffArrays oldParas st p] show ?case
  proof
    assume "entries ?st = entries st"
    with 1 show ?thesis
      by (intro exI[of _ is1] exI[of _ es1]) auto
  next
    assume "\<exists>e. entries ?st = entries st @ [e] \<and> entryOf diffArrays oldParas p e"
    then obtain e where e: "entries ?st = entries st @ [e]" "entryOf diffArrays oldParas p e" by blast
    have k: "entryOf diffArrays oldParas ((pre @ p # ps) ! ((length pre # is1) ! k)) ((e # es1) ! k)"
      if "k < length (e # es1)" for k
    proof (cases k)
      case 0
      with e show ?thesis by simp
    next
      case (Suc k')
      with that 1(5) show ?thesis by simp
    qed
    show ?thesis
      apply (rule exI[of _ "length pre # is1"], rule exI[of _ "e # es1"])
      using 1 e k by (simp add: Ball_def) force
  qed
qed

lemma entryOf_not_removed: "entryOf diffArrays oldParas p e \<Longrightarrow> e \<noteq> Removed s"
  by (auto simp: entryOf_def)

lemma diffStep_usedOld:
  "usedOld (diffStep diffArrays oldParas st p) =
     (if 0 \<le> index (findBestMatch p oldParas (usedOld st))
      then insert (nat (index (findBestMatch p oldParas (usedOld st)))) (usedOld st)
      else usedOld st)"
  by (simp add: diffStep_def Let_def)

lemma align_loop_used:
  "usedOld (foldl (diffStep diffArrays oldParas) st ps) =
     usedOld st \<union> snd ` set (matchedPairs oldParas (usedOld st) i ps)"
proof (induction ps arbitrary: st i)
  case Nil
  then show ?case by simp
next
  case (Cons p ps)
  show ?case
    using Cons.IH[of "diffStep diffArrays oldParas st p" "Suc i"]
    by (auto simp: diffStep_usedOld Let_def)
qed

lemma matchedPairs_props:
  "(\<forall>(a, b)\<in>set (matchedPairs oldParas used i ps).
       i \<le> a \<and> a < i + length ps \<and> b < length oldParas \<and> b \<notin> used) \<and>
   sorted_wrt (<) (map fst (matchedPairs oldParas used i ps)) \<and>
   distinct (map snd (matchedPairs oldParas used i ps))"
proof (induction ps arbitrary: used i)
  case Nil
  then show ?case by simp
next
  case (Cons p ps)
  show ?case
  proof (cases "0 \<le> index (findBestMatch p oldParas used)")
    case True
    let ?j = "nat (index (findBestMatch p oldParas used))"
    from findBestMatch_index[OF True] have j: "?j < length oldParas" "?j \<notin> used" by auto
    from Cons.IH[of "insert ?j used" "Suc i"] have ih:
      "\<forall>(a, b)\<in>set (matchedPairs oldParas (insert ?j used) (Suc i) ps).
         Suc i \<le> a \<and> a < Suc i + length ps \<and> b < length oldParas \<and> b \<notin> insert ?j used"
      "sorted_wrt (<) (map fst (matchedPairs oldParas (insert ?j used) (Suc i) ps))"
      "distinct (map snd (matchedPairs oldParas (insert ?j used) (Suc i) ps))"
      by auto
    have m: "matchedPairs oldParas used i (p # ps) =
               (i, ?j) # matchedPairs oldParas (insert ?j used) (Suc i) ps"
      using True by (simp add: Let_def)
    show ?thesis unfolding m using ih j by (auto simp: Let_def)
  next
    case False
    then have m: "matchedPairs oldParas used i (p # ps) = matchedPairs oldParas used (Suc i) ps"
      by (simp add: Let_def)
    show ?thesis unfolding m using Cons.IH[of used "Suc i"] by auto
  qed
qed

lemma diffStep_pairEntries:
  "entries (diffStep diffArrays oldParas st p) =
     entries st @
     (if 0 \<le> index (findBestMatch p oldParas (usedOld st))
      then pairEntries diffArrays (oldParas ! nat (index (findBestMatch p oldParas (usedOld st)))) p
      else [Added (escapeHtml p)])"
  by (simp add: diffStep_def pairEntries_def Let_def)

lemma matchedPairs_map_of_below:
  "a < i \<Longrightarrow> map_of (matchedPairs oldParas used i ps) a = None"
proof -
  assume "a < i"
  with matchedPairs_props[of oldParas used i ps]
  have "a \<notin> fst ` set (matchedPairs oldParas used i ps)" by fastforce
  then show ?thesis by (simp add: map_of_eq_None_iff)
qed

lemma align_loop_entries:
  "entries (foldl (diffStep diffArrays oldParas) st ps) =
     entries st @
     concat (map (\<lambda>k. case map_of (matchedPairs oldParas (usedOld st) i ps) (i + k) of
                         None \<Rightarrow> [Added (escapeHtml (ps ! k))]
                       | Some j \<Rightarrow> pairEntries diffArrays (oldParas ! j) (ps ! k))
                 [0..<length ps])"
proof (induction ps arbitrary: st i)
  case Nil
  then show ?case by simp
next
  case (Cons p ps)
  let ?st = "diffStep diffArrays oldParas st p"
  let ?m = "findBestMatch p oldParas (usedOld st)"
  let ?f = "\<lambda>pairs i ps k. case map_of pairs (i + k) of
                         None \<Rightarrow> [Added (escapeHtml (ps ! k))]
                       | Some j \<Rightarrow> pairEntries diffArrays (oldParas ! j) (ps ! k)"
  have upt: "[0..<length (p # ps)] = 0 # map Suc [0..<length ps]"
    by (simp add: upt_conv_Cons map_Suc_upt del: upt_Suc)
  have ih: "entries (foldl (diffStep diffArrays oldParas) ?st ps) =
     entries ?st @
     concat (map (?f (matchedPairs oldParas (usedOld ?st) (Suc i) ps) (Suc i) ps) [0..<length ps])"
    by (rule Cons.IH)
  show ?case
  proof (cases "0 \<le> index ?m")
    case True
    let ?j = "nat (index ?m)"
    have mp: "matchedPairs oldParas (usedOld st) i (p # ps) =
               (i, ?j) # matchedPairs oldParas (usedOld ?st) (Suc i) ps"
      using True by (simp add: Let_def diffStep_usedOld)
    have hd: "?f (matchedPairs oldParas (usedOld st) i (p # ps)) i (p # ps) 0 =
                pairEntries diffArrays (oldParas ! ?j) p"
      unfolding mp by simp
    have tl: "?f (matchedPairs oldParas (usedOld st) i (p # ps)) i (p # ps) (Suc k) =
                ?f (matchedPairs oldParas (usedOld ?st) (Suc i) ps) (Suc i) ps k" for k
      unfolding mp by (simp split: option.split)
    have e: "entries ?st = entries st @ pairEntries diffArrays (oldParas ! ?j) p"
      using True by (simp add: diffStep_pairEntries)
    show ?thesis
      unfolding foldl_Cons ih upt list.map concat.simps map_map comp_def hd tl e by simp
  next
    case False
    have mp: "matchedPairs oldParas (usedOld st) i (p # ps) =
               matchedPairs oldParas (usedOld ?st) (Suc i) ps"
      using False by (simp add: Let_def diffStep_usedOld)
    have hd: "?f (matchedPairs oldParas (usedOld st) i (p # ps)) i (p # ps) 0 =
                [Added (escapeHtml p)]"
      unfolding mp by (simp add: matchedPairs_map_of_below)
    have tl: "?f (matchedPairs oldParas (usedOld st) i (p # ps)) i (p # ps) (Suc k) =
                ?f (matchedPairs oldParas (usedOld ?st) (Suc i) ps) (Suc i) ps k" for k
      unfolding mp by (simp split: option.split)
    have e: "entries ?st = entries st @ [Added (escapeHtml p)]"
      using False by (simp add: diffStep_pairEntries)
    show ?thesis
      unfolding foldl_Cons ih upt list.map concat.simps map_map comp_def hd tl e by simp
  qed
qed

lemma no_changes_blank:
  assumes "partsFromInputs diffArrays" "isBlank oldPara" "isBlank newPara"
  shows "\<not> hasChanges (diffParagraphs diffArrays oldPara newPara)"
proof -
  let ?changes = "diffArrays (splitWhitespace oldPara) (splitWhitespace newPara) comparator"
  have "\<not> markedPart p" if p: "p \<in> set ?changes" for p
  proof
    assume m: "markedPart p"
    have "set (partValue p) \<subseteq> set (splitWhitespace oldPara) \<union> set (splitWhitespace newPara)"
      using assms(1) p m unfolding partsFromInputs_def markedPart_def by blast
    then have "\<forall>t\<in>set (partValue p). isBlank t"
      using tokens_of_blank[OF assms(2)] tokens_of_blank[OF assms(3)] by blast
    then have "isBlank (concat (partValue p))" by (auto simp: isBlank_def list_all_iff)
    with m show False by (simp add: markedPart_def)
  qed
  then show ?thesis by (auto simp: diffParagraphs_def Let_def renderParts_counts)
qed

lemma blank_no_words: "isBlank s \<Longrightarrow> filter (\<lambda>t. \<not> isBlank t) (splitWhitespace s) = []"
  by (auto simp: filter_empty_conv dest: tokens_of_blank)

lemma no_changes_same_words:
  assumes "equalityPass diffArrays" "partsFromInputs diffArrays"
    and "isBlank oldPara \<or> tight oldPara" "isBlank newPara \<or> tight newPara"
    and "filter (\<lambda>t. \<not> isBlank t) (splitWhitespace oldPara) =
         filter (\<lambda>t. \<not> isBlank t) (splitWhitespace newPara)"
  shows "\<not> hasChanges (diffParagraphs diffArrays oldPara newPara)"
proof (cases "isBlank oldPara \<or> isBlank newPara")
  case True
  then have e: "filter (\<lambda>t. \<not> isBlank t) (splitWhitespace oldPara) = []"
               "filter (\<lambda>t. \<not> isBlank t) (splitWhitespace newPara) = []"
    using assms(5) blank_no_words by auto
  have "isBlank oldPara" using assms(3) e(1) wordsAndGaps_has_word tokens_of_tight by blast
  moreover have "isBlank newPara" using assms(4) e(2) wordsAndGaps_has_word tokens_of_tight by blast
  ultimately show ?thesis using assms(2) by (simp add: no_changes_blank)
next
  case False
  with assms(3,4) have "wordsAndGaps (splitWhitespace oldPara)" "wordsAndGaps (splitWhitespace newPara)"
    by (auto intro: tokens_of_tight)
  from wordsAndGaps_filter[OF this assms(5)] assms(1) show ?thesis
    by (simp add: no_changes_equal_tokens)
qed

section \<open>Claims about the whole pipeline\<close>

text \<open>
  Claim C1 (identity diff). With an array diff that has the equality pass,
  \<^verbatim>\<open>generateDiff\<close> of a text against itself yields the empty sequence of entries: every
  paragraph is matched with itself (score 1, the first unused index that reaches it), the
  pair has no changes, and no old paragraph is left over. This holds for every text, the
  empty one included.
\<close>

theorem identity_diff:
  assumes "equalityPass diffArrays"
  shows "generateDiff diffArrays T T = []"
  by (simp add: generateDiff_def diff_identical_lists[OF assms])

text \<open>The identity diff of a text of two sentences.\<close>

theorem identity_diff_witness:
  "generateDiff simpleDiffArrays (js ''The cat sat. The dog ran.'') (js ''The cat sat. The dog ran.'') = []"
  using identity_diff[OF simpleDiffArrays_equalityPass] .

text \<open>
  Claim C6 (output ordering). \<^verbatim>\<open>generateDiff\<close> runs its two loops on the paragraphs of the
  two texts, and for all paragraph lists the result of the loops is exactly this sequence:
  first, for the new paragraphs in their order, the entries of each one (its added entry
  when it is matched to no old paragraph; when it is matched, its replaced or changed
  entry, or nothing when the pair has no changes); then the removed entries of the old
  paragraphs that are in no matched pair, by increasing old index. A new paragraph has at
  most one entry, never a removed one, so the removed entries are exactly the tail.
\<close>

theorem output_ordering:
  "generateDiff diffArrays oldText newText =
     diffParagraphLists diffArrays (splitIntoParagraphs oldText) (splitIntoParagraphs newText) \<and>
   diffParagraphLists diffArrays oldParas newParas =
     concat (map (newParaEntries diffArrays oldParas newParas (matchedPairs oldParas {} 0 newParas))
                 [0..<length newParas]) @
     map (\<lambda>j. Removed (escapeHtml (oldParas ! j)))
       (filter (\<lambda>j. j \<notin> snd ` set (matchedPairs oldParas {} 0 newParas)) [0..<length oldParas]) \<and>
   length (newParaEntries diffArrays oldParas newParas pairs i) \<le> 1 \<and>
   Removed s \<notin> set (newParaEntries diffArrays oldParas newParas pairs i)"
proof (intro conjI)
  show "generateDiff diffArrays oldText newText =
     diffParagraphLists diffArrays (splitIntoParagraphs oldText) (splitIntoParagraphs newText)"
    by (simp add: generateDiff_def)
next
  show "length (newParaEntries diffArrays oldParas newParas pairs i) \<le> 1"
    by (simp add: newParaEntries_def pairEntries_def Let_def split: option.split)
next
  show "Removed s \<notin> set (newParaEntries diffArrays oldParas newParas pairs i)"
    by (simp add: newParaEntries_def pairEntries_def Let_def split: option.split)
next
  have u: "usedOld (alignLoop diffArrays oldParas newParas) =
             snd ` set (matchedPairs oldParas {} 0 newParas)"
    using align_loop_used[of diffArrays oldParas "\<lparr>entries = [], usedOld = {}\<rparr>" newParas 0]
    by (simp add: alignLoop_def)
  have e: "entries (alignLoop diffArrays oldParas newParas) =
             concat (map (newParaEntries diffArrays oldParas newParas (matchedPairs oldParas {} 0 newParas))
                 [0..<length newParas])"
    using align_loop_entries[of diffArrays oldParas "\<lparr>entries = [], usedOld = {}\<rparr>" newParas 0]
    by (simp add: alignLoop_def newParaEntries_def[abs_def])
  show "diffParagraphLists diffArrays oldParas newParas =
     concat (map (newParaEntries diffArrays oldParas newParas (matchedPairs oldParas {} 0 newParas))
                 [0..<length newParas]) @
     map (\<lambda>j. Removed (escapeHtml (oldParas ! j)))
       (filter (\<lambda>j. j \<notin> snd ` set (matchedPairs oldParas {} 0 newParas)) [0..<length oldParas])"
    by (simp add: diffParagraphLists_def Let_def removedEntries_def u e)
qed

text \<open>
  Four old and four new paragraphs. The first new paragraph is matched to no old one
  (added); the second is matched to the third old one and gains a word (changed); the third
  is matched to the fourth old one with most of its characters rewritten (replaced); the
  fourth is the first old paragraph again (no entry). The second old paragraph is in no
  pair, and its removed entry comes last.
\<close>

theorem output_ordering_witness:
  "matchedPairs [js ''a b c'', js ''d e f'', js ''g h i'', js ''aa bb cc xxxxxxxxxxxx''] {} 0
     [js ''x y z'', js ''g h i j'', js ''aa bb cc yyyyyyyyyyyyyy'', js ''a b c''] =
     [(1, 2), (2, 3), (3, 0)] \<and>
   diffParagraphLists simpleDiffArrays
     [js ''a b c'', js ''d e f'', js ''g h i'', js ''aa bb cc xxxxxxxxxxxx'']
     [js ''x y z'', js ''g h i j'', js ''aa bb cc yyyyyyyyyyyyyy'', js ''a b c''] =
     [Added (js ''x y z''),
      Changed (js ''g h i<add> j</add>''),
      Replaced (js ''aa bb cc xxxxxxxxxxxx'') (js ''aa bb cc yyyyyyyyyyyyyy''),
      Removed (js ''d e f'')]"
proof -
  let ?o = "[js ''a b c'', js ''d e f'', js ''g h i'', js ''aa bb cc xxxxxxxxxxxx'']"
  let ?n = "[js ''x y z'', js ''g h i j'', js ''aa bb cc yyyyyyyyyyyyyy'', js ''a b c'']"
  have p: "matchedPairs ?o {} 0 ?n = [(1, 2), (2, 3), (3, 0)]" by code_simp
  have f: "concat (map (newParaEntries simpleDiffArrays ?o ?n [(1, 2), (2, 3), (3, 0)]) [0..<length ?n]) =
             [Added (js ''x y z''), Changed (js ''g h i<add> j</add>''),
              Replaced (js ''aa bb cc xxxxxxxxxxxx'') (js ''aa bb cc yyyyyyyyyyyyyy'')]"
    by code_simp
  have r: "map (\<lambda>j. Removed (escapeHtml (?o ! j)))
             (filter (\<lambda>j. j \<notin> snd ` set [(1, 2), (2, 3), (3, 0::nat)]) [0..<length ?o]) =
             [Removed (js ''d e f'')]"
    by code_simp
  from output_ordering[of simpleDiffArrays _ _ ?o ?n, THEN conjunct2, THEN conjunct1, unfolded p f r] p
  show ?thesis by simp
qed

text \<open>
  Claim C7 (white-space-only edits are invisible). Let the array diff have the equality
  pass and return parts made of its inputs. For two paragraphs produced by
  \<^verbatim>\<open>splitIntoParagraphs\<close> whose tokens other than white space are the same sequence,
  \<^verbatim>\<open>diffParagraphs\<close> reports no change, so a loop step that matches them pushes no entry.
  In the rendering, an added part of white space only is appended as it is, without a
  marker, and a removed part of white space only leaves the state as it was.
\<close>

theorem whitespace_edits_invisible:
  assumes "equalityPass diffArrays" and "partsFromInputs diffArrays"
    and "oldPara \<in> set (splitIntoParagraphs oldText)"
    and "newPara \<in> set (splitIntoParagraphs newText)"
    and "filter (\<lambda>t. \<not> isBlank t) (splitWhitespace oldPara) =
         filter (\<lambda>t. \<not> isBlank t) (splitWhitespace newPara)"
  shows "\<not> hasChanges (diffParagraphs diffArrays oldPara newPara) \<and>
         (\<forall>oldParas st. 0 \<le> index (findBestMatch newPara oldParas (usedOld st)) \<and>
              oldParas ! nat (index (findBestMatch newPara oldParas (usedOld st))) = oldPara \<longrightarrow>
              entries (diffStep diffArrays oldParas st newPara) = entries st) \<and>
         (\<forall>st part. added part \<and> isBlank (concat (partValue part)) \<longrightarrow>
              renderPart st part = st\<lparr>html := html st @ concat (partValue part)\<rparr>) \<and>
         (\<forall>st part. \<not> added part \<and> removed part \<and> isBlank (concat (partValue part)) \<longrightarrow>
              renderPart st part = st)"
proof -
  have n: "\<not> hasChanges (diffParagraphs diffArrays oldPara newPara)"
    using assms(1,2) paragraph_blank_or_tight[OF assms(3)] paragraph_blank_or_tight[OF assms(4)] assms(5)
    by (rule no_changes_same_words)
  have s: "entries (diffStep diffArrays oldParas st newPara) = entries st"
    if "0 \<le> index (findBestMatch newPara oldParas (usedOld st)) \<and>
        oldParas ! nat (index (findBestMatch newPara oldParas (usedOld st))) = oldPara"
    for oldParas st
    using that n by (simp add: diffStep_def Let_def)
  have a: "renderPart st part = st\<lparr>html := html st @ concat (partValue part)\<rparr>"
    if "added part \<and> isBlank (concat (partValue part))" for st part
    using that by (simp add: renderPart_def Let_def trim_blank)
  have r: "renderPart st part = st"
    if "\<not> added part \<and> removed part \<and> isBlank (concat (partValue part))" for st part
    using that by (simp add: renderPart_def Let_def trim_blank)
  from n s a r show ?thesis by blast
qed

text \<open>A paragraph against itself with wider gaps between the words.\<close>

theorem whitespace_edits_invisible_witness:
  "\<not> hasChanges (diffParagraphs simpleDiffArrays (js ''The cat sat.'') (js ''The  cat   sat.'')) \<and>
   generateDiff simpleDiffArrays (js ''The cat sat.'') (js ''The  cat   sat.'') = []"
proof -
  let ?o = "(js ''The cat sat.'')" and ?n = "(js ''The  cat   sat.'')"
  have po: "?o \<in> set (splitIntoParagraphs ?o)" by code_simp
  have pn: "?n \<in> set (splitIntoParagraphs ?n)" by code_simp
  have w: "filter (\<lambda>t. \<not> isBlank t) (splitWhitespace ?o) = filter (\<lambda>t. \<not> isBlank t) (splitWhitespace ?n)"
    by code_simp
  have g: "generateDiff simpleDiffArrays ?o ?n = []" by code_simp
  from whitespace_edits_invisible[OF simpleDiffArrays_equalityPass simpleDiffArrays_partsFromInputs po pn w] g
  show ?thesis by blast
qed

text \<open>
  Claim C8 (one-to-one matching). \<^verbatim>\<open>generateDiff\<close> runs its two loops on the paragraphs of
  the two texts. For all paragraph lists, after any number \<open>k\<close> of iterations of the
  alignment loop the set \<^verbatim>\<open>usedOld\<close> is the set of old indices of the pairs matched so far,
  no old index and no new index occurs in two pairs, and the indices are in range. The
  result of the loops is the entries of the alignment loop, none of them a removed entry,
  followed by the removed entries of exactly the old indices that occur in no pair, in
  increasing order.
\<close>

theorem one_to_one_matching:
  "generateDiff diffArrays oldText newText =
     diffParagraphLists diffArrays (splitIntoParagraphs oldText) (splitIntoParagraphs newText) \<and>
   (\<forall>k. usedOld (alignLoop diffArrays oldParas (take k newParas)) =
          snd ` set (matchedPairs oldParas {} 0 (take k newParas)) \<and>
        distinct (map snd (matchedPairs oldParas {} 0 (take k newParas))) \<and>
        distinct (map fst (matchedPairs oldParas {} 0 (take k newParas))) \<and>
        (\<forall>(i, j)\<in>set (matchedPairs oldParas {} 0 (take k newParas)).
            i < k \<and> i < length newParas \<and> j < length oldParas)) \<and>
   diffParagraphLists diffArrays oldParas newParas =
     entries (alignLoop diffArrays oldParas newParas) @
     map (\<lambda>j. Removed (escapeHtml (oldParas ! j)))
       (filter (\<lambda>j. j \<notin> snd ` set (matchedPairs oldParas {} 0 newParas)) [0..<length oldParas]) \<and>
   (\<forall>e\<in>set (entries (alignLoop diffArrays oldParas newParas)). \<forall>s. e \<noteq> Removed s)"
proof (intro conjI allI)
  show "generateDiff diffArrays oldText newText =
     diffParagraphLists diffArrays (splitIntoParagraphs oldText) (splitIntoParagraphs newText)"
    by (simp add: generateDiff_def)
next
  fix k
  show "usedOld (alignLoop diffArrays oldParas (take k newParas)) =
          snd ` set (matchedPairs oldParas {} 0 (take k newParas))"
    using align_loop_used[of diffArrays oldParas "\<lparr>entries = [], usedOld = {}\<rparr>" "take k newParas" 0]
    by (simp add: alignLoop_def)
  note p = matchedPairs_props[of oldParas "{}" 0 "take k newParas"]
  from p show "distinct (map snd (matchedPairs oldParas {} 0 (take k newParas)))" by blast
  from p have "sorted_wrt (<) (map fst (matchedPairs oldParas {} 0 (take k newParas)))" by blast
  then show "distinct (map fst (matchedPairs oldParas {} 0 (take k newParas)))"
    by (simp add: strict_sorted_iff)
  from p show "\<forall>(i, j)\<in>set (matchedPairs oldParas {} 0 (take k newParas)).
                  i < k \<and> i < length newParas \<and> j < length oldParas"
    by auto
next
  have u: "usedOld (alignLoop diffArrays oldParas newParas) =
             snd ` set (matchedPairs oldParas {} 0 newParas)"
    using align_loop_used[of diffArrays oldParas "\<lparr>entries = [], usedOld = {}\<rparr>" newParas 0]
    by (simp add: alignLoop_def)
  show "diffParagraphLists diffArrays oldParas newParas =
           entries (alignLoop diffArrays oldParas newParas) @
           map (\<lambda>j. Removed (escapeHtml (oldParas ! j)))
             (filter (\<lambda>j. j \<notin> snd ` set (matchedPairs oldParas {} 0 newParas)) [0..<length oldParas])"
    by (simp add: diffParagraphLists_def Let_def removedEntries_def u)
next
  from align_loop_order[of diffArrays oldParas "\<lparr>entries = [], usedOld = {}\<rparr>" newParas "[]"]
  obtain "is" es where
    1: "entries (alignLoop diffArrays oldParas newParas) = es"
       "\<forall>k<length es. entryOf diffArrays oldParas (newParas ! (is ! k)) (es ! k)"
    unfolding alignLoop_def by auto
  show "\<forall>e\<in>set (entries (alignLoop diffArrays oldParas newParas)). \<forall>s. e \<noteq> Removed s"
  proof (intro ballI allI)
    fix e s assume "e \<in> set (entries (alignLoop diffArrays oldParas newParas))"
    with 1(1) obtain k where "k < length es" "es ! k = e" by (auto simp: in_set_conv_nth)
    with 1(2) entryOf_not_removed show "e \<noteq> Removed s" by blast
  qed
qed

text \<open>
  Three old and four new paragraphs: two pairs, the used set after two and after four
  iterations, and the removed entry of the old paragraph in no pair.
\<close>

theorem one_to_one_matching_witness:
  "matchedPairs [js ''a b c'', js ''d e f'', js ''g h i''] {} 0
     [js ''x y z'', js ''g h i j'', js ''a b q r s t u v'', js ''a b c''] = [(1, 2), (3, 0)] \<and>
   usedOld (alignLoop simpleDiffArrays [js ''a b c'', js ''d e f'', js ''g h i'']
     [js ''x y z'', js ''g h i j'', js ''a b q r s t u v'', js ''a b c'']) = {0, 2} \<and>
   usedOld (alignLoop simpleDiffArrays [js ''a b c'', js ''d e f'', js ''g h i'']
     [js ''x y z'', js ''g h i j'']) = {2} \<and>
   diffParagraphLists simpleDiffArrays [js ''a b c'', js ''d e f'', js ''g h i'']
     [js ''x y z'', js ''g h i j'', js ''a b q r s t u v'', js ''a b c''] =
     entries (alignLoop simpleDiffArrays [js ''a b c'', js ''d e f'', js ''g h i'']
       [js ''x y z'', js ''g h i j'', js ''a b q r s t u v'', js ''a b c'']) @ [Removed (js ''d e f'')]"
proof -
  let ?o = "[js ''a b c'', js ''d e f'', js ''g h i'']"
  let ?n = "[js ''x y z'', js ''g h i j'', js ''a b q r s t u v'', js ''a b c'']"
  have p: "matchedPairs ?o {} 0 ?n = [(1, 2), (3, 0)]" by code_simp
  have p2: "matchedPairs ?o {} 0 [js ''x y z'', js ''g h i j''] = [(1, 2)]" by code_simp
  have e: "escapeHtml (js ''d e f'') = (js ''d e f'')" by code_simp
  note inst = one_to_one_matching[of simpleDiffArrays _ _ ?o ?n, THEN conjunct2]
  from inst have a: "\<forall>k. usedOld (alignLoop simpleDiffArrays ?o (take k ?n)) =
                snd ` set (matchedPairs ?o {} 0 (take k ?n))" by blast
  from a[rule_format, of 4] p have u: "usedOld (alignLoop simpleDiffArrays ?o ?n) = {0, 2}" by auto
  from a[rule_format, of 2] p2
  have u2: "usedOld (alignLoop simpleDiffArrays ?o [js ''x y z'', js ''g h i j'']) = {2}" by simp
  from inst have "diffParagraphLists simpleDiffArrays ?o ?n =
           entries (alignLoop simpleDiffArrays ?o ?n) @
           map (\<lambda>j. Removed (escapeHtml (?o ! j)))
             (filter (\<lambda>j. j \<notin> snd ` set (matchedPairs ?o {} 0 ?n)) [0..<length ?o])"
    by blast
  also have "filter (\<lambda>j. j \<notin> snd ` set (matchedPairs ?o {} 0 ?n)) [0..<length ?o] = [1]"
    unfolding p by code_simp
  finally have g: "diffParagraphLists simpleDiffArrays ?o ?n =
     entries (alignLoop simpleDiffArrays ?o ?n) @ [Removed (js ''d e f'')]"
    using e by simp
  from p u u2 g show ?thesis by blast
qed

end
